theory Spec2Isabelle
  imports Main "HOL-Library.Multiset"
begin

chapter \<open>The program\<close>

section \<open>Data model\<close>

text \<open>
  The class \<open>Process\<close> of \<open>code.cpp\<close>. Every field is a C++ \<open>int\<close>, 32 bits wide. The
  model keeps an \<open>int\<close> as an integer and writes the wrap-around out: \<open>wrap\<close> takes the
  mathematical result of an addition or subtraction to the two's complement value the
  compiled program is left with (the C++ standard itself leaves signed overflow
  undefined). It is applied to the clock, to the metrics, to the idle time and to the
  remaining burst from which Round Robin subtracts the quantum. The counter
  \<open>completedCount\<close> is incremented only below the number of processes, and SRTF
  decrements \<open>rem_bt\<close> only when it is positive: these cannot overflow and are left as
  they are. The constant \<open>INT_MAX\<close> is the 32-bit one; the selection loops use it as a
  sentinel.
\<close>

record process =
  pid :: int
  at :: int
  bt :: int
  rem_bt :: int
  ct :: int
  tat :: int
  wt :: int
  priority :: int

definition Process :: "int \<Rightarrow> int \<Rightarrow> int \<Rightarrow> int \<Rightarrow> process" where
  "Process i a b p =
     \<lparr>pid = i, at = a, bt = b, rem_bt = b, ct = 0, tat = 0, wt = 0, priority = p\<rparr>"

definition INT_MAX :: int where
  "INT_MAX = 2147483647"

definition wrap :: "int \<Rightarrow> int" where
  "wrap x = (x + 2147483648) mod 4294967296 - 2147483648"

text \<open>
  Gantt labels. The source uses the strings \<open>"IDLE"\<close>, \<open>"P" + to_string(pid)\<close> and
  the empty string (no block yet); they are only ever compared for equality, and
  \<open>to_string\<close> is injective, so a label is one of three shapes.
\<close>

datatype label = NoBlock | IDLE | P int

text \<open>
  What \<open>printResults\<close> shows: the table of processes, the blocks of the Gantt chart with
  the timeline printed beneath them, and the idle time. (The two averages are floating
  point and are left out.)
\<close>

record result =
  table :: "process list"
  gantt_blocks :: "label list"
  gantt_timeline :: "int list"
  idle_time :: int

text \<open>
  \<open>std::sort\<close> with a comparator \<open>a.key < b.key\<close> is a parameter of the model: a function
  that takes the key and the vector. The C++ standard promises a sorted permutation
  and leaves the order of elements with equal keys open.
\<close>

type_synonym sorter = "(process \<Rightarrow> int) \<Rightarrow> process list \<Rightarrow> process list"

definition std_sort :: "sorter \<Rightarrow> bool" where
  "std_sort srt \<longleftrightarrow>
     (\<forall>key xs. mset (srt key xs) = mset xs \<and> sorted (map key (srt key xs)))"

subsection \<open>printResults\<close>

text \<open>The idle-time loop of \<open>printResults\<close> (lines 86-90).\<close>

definition idleTime :: "label list \<Rightarrow> int list \<Rightarrow> int" where
  "idleTime bl tml =
     foldl (\<lambda>idle i. if bl ! i = IDLE \<and> i + 1 < length tml
                      then wrap (idle + wrap (tml ! (i + 1) - tml ! i)) else idle)
           0 [0..<length bl]"

definition printResults :: "sorter \<Rightarrow> process list \<Rightarrow> int list \<Rightarrow> label list \<Rightarrow> result" where
  "printResults srt ps tml bl =
     \<lparr>table = srt pid ps, gantt_blocks = bl, gantt_timeline = tml,
      idle_time = idleTime bl tml\<rparr>"

text \<open>
  The chart as segments: block \<open>i\<close> is drawn from \<open>timeline[i]\<close> to \<open>timeline[i+1]\<close>,
  which is also how the idle-time loop reads the two vectors.
\<close>

definition segments :: "label list \<Rightarrow> int list \<Rightarrow> (label \<times> int \<times> int) list" where
  "segments bl tml = zip bl (zip tml (tl tml))"

definition gantt :: "result \<Rightarrow> (label \<times> int \<times> int) list" where
  "gantt r = segments (gantt_blocks r) (gantt_timeline r)"

text \<open>Total time under the label of process \<open>i\<close>.\<close>

definition labeled_time :: "result \<Rightarrow> int \<Rightarrow> int" where
  "labeled_time r i = sum_list (map (\<lambda>(l, a, b). b - a) (filter (\<lambda>(l, a, b). l = P i) (gantt r)))"

section \<open>The simulation state\<close>

text \<open>The local variables of FCFS, which every scheduler has; the loops add theirs.\<close>

record chart =
  procs :: "process list"
  time :: int
  timeline :: "int list"
  blocks :: "label list"

record sim = chart +
  completedCount :: int

text \<open>Writing the three metrics of a finished process (lines 128-130, 193-195, 359-361, 497-499).\<close>

definition finish :: "int \<Rightarrow> process \<Rightarrow> process" where
  "finish t p = p\<lparr>ct := t, tat := wrap (t - at p), wt := wrap (wrap (t - at p) - bt p)\<rparr>"

section \<open>FCFS\<close>

text \<open>The body of the \<open>for\<close> loop (lines 114-131) for the process at index \<open>i\<close>.\<close>

definition FCFS_body :: "chart \<Rightarrow> nat \<Rightarrow> chart" where
  "FCFS_body s i =
     (let p = procs s ! i;
          s1 = (if at p > time s
                then s\<lparr>blocks := blocks s @ [IDLE], time := at p, timeline := timeline s @ [at p]\<rparr>
                else s);
          t = wrap (time s1 + bt p)
      in s1\<lparr>blocks := blocks s1 @ [P (pid p)], time := t, timeline := timeline s1 @ [t],
            procs := (procs s1)[i := finish t p]\<rparr>)"

definition FCFS_init :: "process list \<Rightarrow> chart" where
  "FCFS_init ps = \<lparr>procs = ps, time = 0, timeline = [0], blocks = []\<rparr>"

definition FCFS_loop :: "process list \<Rightarrow> chart" where
  "FCFS_loop ps = foldl FCFS_body (FCFS_init ps) [0..<length ps]"

definition FCFS :: "sorter \<Rightarrow> process list \<Rightarrow> result" where
  "FCFS srt ps =
     (let s = FCFS_loop (srt at ps) in printResults srt (procs s) (timeline s) (blocks s))"

section \<open>The selection loop\<close>

text \<open>
  The \<open>for\<close> loop that SJF, PriorityScheduling and SRTF share (lines 153-166, 222-235,
  296-309): \<open>key\<close> is the field compared (\<open>bt\<close>, \<open>priority\<close>, \<open>rem_bt\<close>) and \<open>ready i\<close> the
  outer condition. The index \<open>-1\<close> of the source is \<open>None\<close>.
\<close>

definition select_step ::
  "(process \<Rightarrow> int) \<Rightarrow> (nat \<Rightarrow> bool) \<Rightarrow> process list \<Rightarrow> int \<times> nat option \<Rightarrow> nat \<Rightarrow> int \<times> nat option" where
  "select_step key ready ps st i =
     (case st of (minK, idx) \<Rightarrow>
        if ready i then
          if key (ps ! i) < minK then (key (ps ! i), Some i)
          else if key (ps ! i) = minK then
            (case idx of
               None \<Rightarrow> (minK, idx)
             | Some j \<Rightarrow> if at (ps ! i) < at (ps ! j) then (minK, Some i) else (minK, idx))
          else (minK, idx)
        else (minK, idx))"

definition select_min :: "(process \<Rightarrow> int) \<Rightarrow> (nat \<Rightarrow> bool) \<Rightarrow> process list \<Rightarrow> nat option" where
  "select_min key ready ps = snd (foldl (select_step key ready ps) (INT_MAX, None) [0..<length ps])"

section \<open>SJF and PriorityScheduling\<close>

text \<open>
  The two functions are the same text but for the field they select on (\<open>bt\<close> and
  \<open>priority\<close>); the model has one loop with that field as \<open>key\<close>.
\<close>

record np_state = sim +
  completed :: "bool list"

definition np_ready :: "process list \<Rightarrow> bool list \<Rightarrow> int \<Rightarrow> nat \<Rightarrow> bool" where
  "np_ready ps cs t i \<longleftrightarrow> \<not> cs ! i \<and> at (ps ! i) \<le> t"

text \<open>Lines 170-175 and 239-244.\<close>

definition np_next_arrival :: "process list \<Rightarrow> bool list \<Rightarrow> int" where
  "np_next_arrival ps cs =
     foldl (\<lambda>m i. if \<not> cs ! i then min m (at (ps ! i)) else m) INT_MAX [0..<length ps]"

text \<open>Lines 178-180 and 247-249.\<close>

definition np_idle :: "int \<Rightarrow> np_state \<Rightarrow> np_state" where
  "np_idle next_arrival_time s =
     s\<lparr>blocks := blocks s @ [IDLE], time := next_arrival_time,
       timeline := timeline s @ [next_arrival_time]\<rparr>"

text \<open>Lines 188-197 and 256-265.\<close>

definition np_exec :: "nat \<Rightarrow> np_state \<Rightarrow> np_state" where
  "np_exec idx s =
     (let p = procs s ! idx; t = wrap (time s + bt p)
      in s\<lparr>blocks := blocks s @ [P (pid p)], time := t, timeline := timeline s @ [t],
           procs := (procs s)[idx := finish t p],
           completed := (completed s)[idx := True],
           completedCount := completedCount s + 1\<rparr>)"

partial_function (option) np_loop :: "(process \<Rightarrow> int) \<Rightarrow> np_state \<Rightarrow> np_state option" where
  "np_loop key s =
     (if completedCount s < int (length (procs s)) then
        (case select_min key (np_ready (procs s) (completed s) (time s)) (procs s) of
           None \<Rightarrow>
             (if np_next_arrival (procs s) (completed s) \<noteq> INT_MAX
              then np_loop key (np_idle (np_next_arrival (procs s) (completed s)) s)
              else Some s)
         | Some idx \<Rightarrow> np_loop key (np_exec idx s))
      else Some s)"

declare np_loop.simps [code]

definition np_init :: "process list \<Rightarrow> np_state" where
  "np_init ps =
     \<lparr>procs = ps, time = 0, timeline = [0], blocks = [], completedCount = 0,
      completed = replicate (length ps) False\<rparr>"

definition np_schedule :: "(process \<Rightarrow> int) \<Rightarrow> sorter \<Rightarrow> process list \<Rightarrow> result option" where
  "np_schedule key srt ps =
     map_option (\<lambda>s. printResults srt (procs s) (timeline s) (blocks s)) (np_loop key (np_init ps))"

definition SJF :: "sorter \<Rightarrow> process list \<Rightarrow> result option" where
  "SJF = np_schedule bt"

definition PriorityScheduling :: "sorter \<Rightarrow> process list \<Rightarrow> result option" where
  "PriorityScheduling = np_schedule priority"

section \<open>SRTF\<close>

record srtf_state = sim +
  last_block_id :: label

definition srtf_ready :: "process list \<Rightarrow> int \<Rightarrow> nat \<Rightarrow> bool" where
  "srtf_ready ps t i \<longleftrightarrow> at (ps ! i) \<le> t \<and> rem_bt (ps ! i) > 0"

text \<open>Lines 313-321: the earliest arrival among the unfinished, if there is one.\<close>

definition srtf_next_arrival :: "process list \<Rightarrow> int \<times> bool" where
  "srtf_next_arrival ps =
     foldl (\<lambda>(m, found) p. if rem_bt p > 0 then (min m (at p), True) else (m, found))
           (INT_MAX, False) ps"

text \<open>Lines 323-330.\<close>

definition srtf_idle :: "int \<Rightarrow> ('a srtf_state_scheme) \<Rightarrow> ('a srtf_state_scheme)" where
  "srtf_idle next_arrival_time s =
     (let s1 = (if last_block_id s \<noteq> IDLE
                then s\<lparr>blocks := blocks s @ [IDLE], timeline := timeline s @ [time s]\<rparr>
                else s)
      in s1\<lparr>time := next_arrival_time, last_block_id := IDLE\<rparr>)"

text \<open>Lines 337-348: opening a block of the chart.\<close>

definition open_block :: "label \<Rightarrow> ('a srtf_state_scheme) \<Rightarrow> ('a srtf_state_scheme)" where
  "open_block current_block_id s =
     (let s1 = (if current_block_id \<noteq> last_block_id s
                then (let s0 = s\<lparr>blocks := blocks s @ [current_block_id]\<rparr>
                      in if last_block_id s \<noteq> IDLE
                         then s0\<lparr>timeline := timeline s0 @ [time s0]\<rparr> else s0)
                else s)
      in s1\<lparr>last_block_id := current_block_id\<rparr>)"

text \<open>Lines 337-366: one unit of execution of the process at \<open>shortest_idx\<close>.\<close>

definition srtf_exec :: "nat \<Rightarrow> srtf_state \<Rightarrow> srtf_state" where
  "srtf_exec shortest_idx s =
     (let s1 = open_block (P (pid (procs s ! shortest_idx))) s;
          p = procs s1 ! shortest_idx;
          p1 = p\<lparr>rem_bt := rem_bt p - 1\<rparr>;
          t = wrap (time s1 + 1);
          s2 = s1\<lparr>procs := (procs s1)[shortest_idx := p1], time := t\<rparr>
      in if rem_bt p1 = 0
         then s2\<lparr>completedCount := completedCount s2 + 1,
                 procs := (procs s2)[shortest_idx := finish t p1],
                 timeline := timeline s2 @ [t],
                 last_block_id := NoBlock\<rparr>
         else s2)"

partial_function (option) SRTF_loop :: "srtf_state \<Rightarrow> srtf_state option" where
  "SRTF_loop s =
     (if completedCount s < int (length (procs s)) then
        (case select_min rem_bt (srtf_ready (procs s) (time s)) (procs s) of
           None \<Rightarrow>
             (case srtf_next_arrival (procs s) of
                (next_arrival_time, found_next) \<Rightarrow>
                  if found_next then SRTF_loop (srtf_idle next_arrival_time s) else Some s)
         | Some shortest_idx \<Rightarrow> SRTF_loop (srtf_exec shortest_idx s))
      else Some s)"

declare SRTF_loop.simps [code]

text \<open>
  The merging pass after the loop (lines 370-386 and 519-535). It reads \<open>timeline[i]\<close>
  for every \<open>i\<close> below the number of blocks. Round Robin leaves a timeline longer than
  the blocks, and SRTF one at least as long while its clock does not overflow (lemmas
  \<open>RoundRobin_merge_in_range\<close> and \<open>SRTF_merge_in_range\<close>).
\<close>

definition merge_step :: "label list \<Rightarrow> int list \<Rightarrow> int list \<times> label list \<Rightarrow> nat \<Rightarrow> int list \<times> label list" where
  "merge_step bl tml st i =
     (case st of (final_timeline, final_blocks) \<Rightarrow>
        if bl ! i \<noteq> last final_blocks
        then (final_timeline @ [tml ! i], final_blocks @ [bl ! i])
        else (final_timeline, final_blocks))"

definition cleanup :: "label list \<Rightarrow> int list \<Rightarrow> int list \<times> label list" where
  "cleanup bl tml =
     (if bl \<noteq> [] then
        (case foldl (merge_step bl tml) ([tml ! 0], [bl ! 0]) [1..<length bl] of
           (final_timeline, final_blocks) \<Rightarrow>
             (if last final_timeline \<noteq> last tml then final_timeline @ [last tml] else final_timeline,
              final_blocks))
      else ([], []))"

definition SRTF_init :: "process list \<Rightarrow> srtf_state" where
  "SRTF_init ps =
     \<lparr>procs = map (\<lambda>p. p\<lparr>rem_bt := bt p\<rparr>) ps, time = 0, timeline = [0], blocks = [],
      completedCount = 0, last_block_id = NoBlock\<rparr>"

definition finish_chart :: "sorter \<Rightarrow> ('a chart_scheme) \<Rightarrow> result" where
  "finish_chart srt s =
     (case cleanup (blocks s) (timeline s) of
        (final_timeline, final_blocks) \<Rightarrow> printResults srt (procs s) final_timeline final_blocks)"

definition SRTF :: "sorter \<Rightarrow> process list \<Rightarrow> result option" where
  "SRTF srt ps = map_option (finish_chart srt) (SRTF_loop (SRTF_init ps))"

section \<open>Round Robin\<close>

record rr_state = srtf_state +
  readyQueue :: "nat list"
  inQueue :: "bool list"
  next_proc_to_arrive :: nat

text \<open>The admission loop (lines 425-433 and 484-492), from index \<open>i\<close> on.\<close>

function admit :: "rr_state \<Rightarrow> nat \<Rightarrow> rr_state" where
  "admit s i =
     (if i < length (procs s) then
        if at (procs s ! i) \<le> time s \<and> \<not> inQueue s ! i
        then admit (s\<lparr>readyQueue := readyQueue s @ [i], inQueue := (inQueue s)[i := True],
                       next_proc_to_arrive := i + 1\<rparr>) (i + 1)
        else if at (procs s ! i) > time s then s
        else admit s (i + 1)
      else s)"
  by pat_completeness auto
termination
  by (relation "measure (\<lambda>(s, i). length (procs s) - i)") auto

declare admit.simps [simp del]

text \<open>Lines 462-510: one dispatch from the head of the queue.\<close>

definition rr_exec :: "int \<Rightarrow> rr_state \<Rightarrow> rr_state" where
  "rr_exec quantum s =
     (let current_proc_idx = hd (readyQueue s);
          s1 = s\<lparr>readyQueue := tl (readyQueue s),
                 inQueue := (inQueue s)[current_proc_idx := False]\<rparr>;
          execution_time = min quantum (rem_bt (procs s1 ! current_proc_idx));
          s2 = open_block (P (pid (procs s1 ! current_proc_idx))) s1;
          p = procs s2 ! current_proc_idx;
          s3 = s2\<lparr>procs := (procs s2)[current_proc_idx := p\<lparr>rem_bt := wrap (rem_bt p - execution_time)\<rparr>],
                  time := wrap (time s2 + execution_time)\<rparr>;
          s4 = admit s3 (next_proc_to_arrive s3)
      in if rem_bt (procs s4 ! current_proc_idx) = 0
         then s4\<lparr>completedCount := completedCount s4 + 1,
                 procs := (procs s4)[current_proc_idx := finish (time s4) (procs s4 ! current_proc_idx)],
                 timeline := timeline s4 @ [time s4],
                 last_block_id := NoBlock\<rparr>
         else s4\<lparr>readyQueue := readyQueue s4 @ [current_proc_idx],
                 inQueue := (inQueue s4)[current_proc_idx := True],
                 timeline := timeline s4 @ [time s4],
                 last_block_id := NoBlock\<rparr>)"

partial_function (option) RR_loop :: "int \<Rightarrow> rr_state \<Rightarrow> rr_state option" where
  "RR_loop quantum s =
     (if completedCount s < int (length (procs s)) then
        (let s1 = admit s (next_proc_to_arrive s) in
         if readyQueue s1 = [] then
           (case find (\<lambda>p. rem_bt p > 0) (drop (next_proc_to_arrive s1) (procs s1)) of
              None \<Rightarrow> Some s1
            | Some p \<Rightarrow> RR_loop quantum (srtf_idle (at p) s1))
         else RR_loop quantum (rr_exec quantum s1))
      else Some s)"

declare RR_loop.simps [code]

definition RR_init :: "process list \<Rightarrow> rr_state" where
  "RR_init ps =
     \<lparr>procs = map (\<lambda>p. p\<lparr>rem_bt := bt p\<rparr>) ps, time = 0, timeline = [0], blocks = [],
      completedCount = 0, last_block_id = NoBlock,
      readyQueue = [], inQueue = replicate (length ps) False, next_proc_to_arrive = 0\<rparr>"

text \<open>
  Lines 410-413 build \<open>pid_to_idx\<close>, a vector of \<open>procs.back().pid + 1\<close> entries, and
  write the index \<open>pid\<close> of it for every process. Nothing ever reads the vector, so
  nothing the program prints depends on it, and the model leaves it out; a write past
  its end (when the process that arrives last has not the largest pid) is undefined
  behaviour in the standard and leaves the output of the compiled program as it is.
  \<open>back()\<close> reads the vector of processes, which must not be empty: that is the one
  error of the model. (\<open>main\<close> refuses an empty input.)
\<close>

datatype error = OutOfBounds

definition RoundRobin :: "sorter \<Rightarrow> process list \<Rightarrow> int \<Rightarrow> (error + result) option" where
  "RoundRobin srt ps quantum =
     (if srt at ps \<noteq> []
      then map_option (\<lambda>s. Inr (finish_chart srt (s\<lparr>procs := srt pid (procs s)\<rparr>)))
                      (RR_loop quantum (RR_init (srt at ps)))
      else Some (Inl OutOfBounds))"

chapter \<open>Inputs and predicates of the properties\<close>

section \<open>The scenarios of the specification\<close>

text \<open>The scenarios give no priority; every process gets priority 0.\<close>

definition S4 :: "process list" where
  "S4 = [Process 1 0 7 0, Process 2 2 4 0, Process 3 4 1 0]"

definition S5 :: "process list" where
  "S5 = [Process 1 0 5 0, Process 2 1 3 0, Process 3 2 2 0]"

definition S6 :: "process list" where
  "S6 = [Process 1 10 3 0]"

text \<open>The completion time of every row of the table, with its pid.\<close>

definition completion_times :: "result \<Rightarrow> (int \<times> int) list" where
  "completion_times r = map (\<lambda>p. (pid p, ct p)) (table r)"

text \<open>The chart that scenario S4 expects of SRTF.\<close>

definition S4_expected :: "(label \<times> int \<times> int) list" where
  "S4_expected = [(P 1, 0, 2), (P 2, 2, 4), (P 3, 4, 5), (P 2, 5, 7), (P 1, 7, 12)]"

text \<open>What scenario S6 looks at: the chart, the idle time, and pid, CT and WT of every row.\<close>

definition chart_and_metrics :: "result \<Rightarrow> (label \<times> int \<times> int) list \<times> int \<times> (int \<times> int \<times> int) list" where
  "chart_and_metrics r = (gantt r, idle_time r, map (\<lambda>p. (pid p, ct p, wt p)) (table r))"

text \<open>
  A single process whose priority is \<open>INT_MAX\<close>, and the states of the loop of
  PriorityScheduling in which it is the only process, not completed, at time 0.
\<close>

definition P_max_priority :: "process list" where
  "P_max_priority = [Process 1 0 1 INT_MAX]"

definition stuck :: "np_state \<Rightarrow> bool" where
  "stuck s \<longleftrightarrow>
     procs s = P_max_priority \<and> completed s = [False] \<and> completedCount s = 0 \<and> time s = 0"


text \<open>Seventeen processes P1 .. P17 that all arrive at time 0 with burst 1.\<close>

definition arrivals_17 :: "process list" where
  "arrivals_17 = map (\<lambda>i. Process i 0 1 0) [1..17]"

text \<open>Three processes that arrive together, the last two with the same burst.\<close>

definition tie_state :: np_state where
  "tie_state = np_init [Process 1 0 5 0, Process 2 0 3 0, Process 3 0 3 0]"

section \<open>std::sort of the GNU C++ library\<close>

text \<open>
  The \<open>std::sort\<close> of libstdc++, the library of the usual build of the program
  (\<open>bits/stl_algo.h\<close> and \<open>bits/stl_heap.h\<close>), for a comparator \<open>a.key < b.key\<close>. It is an
  introsort: while a range is longer than 16 it is partitioned around the median of
  three elements, to a depth of twice the binary logarithm of the length, beyond which
  the range is heap sorted; one insertion sort over the whole vector ends it. The
  iterators of the library are indices into the list here. The loops that the library
  calls unguarded rely on an element that stops them inside the range; the model also
  stops them at the ends of the list.
\<close>

definition iter_swap :: "'a list \<Rightarrow> nat \<Rightarrow> nat \<Rightarrow> 'a list" where
  "iter_swap xs i j = xs[i := xs ! j, j := xs ! i]"

definition move_median_to_first ::
  "('a \<Rightarrow> int) \<Rightarrow> 'a list \<Rightarrow> nat \<Rightarrow> nat \<Rightarrow> nat \<Rightarrow> nat \<Rightarrow> 'a list" where
  "move_median_to_first key xs result a b c =
     (if key (xs ! a) < key (xs ! b) then
        if key (xs ! b) < key (xs ! c) then iter_swap xs result b
        else if key (xs ! a) < key (xs ! c) then iter_swap xs result c
        else iter_swap xs result a
      else if key (xs ! a) < key (xs ! c) then iter_swap xs result a
      else if key (xs ! b) < key (xs ! c) then iter_swap xs result c
      else iter_swap xs result b)"

function scan_up :: "('a \<Rightarrow> int) \<Rightarrow> 'a list \<Rightarrow> nat \<Rightarrow> nat \<Rightarrow> nat" where
  "scan_up key xs pivot first =
     (if first < length xs \<and> key (xs ! first) < key (xs ! pivot)
      then scan_up key xs pivot (first + 1) else first)"
  by pat_completeness auto
termination
  by (relation "measure (\<lambda>(key, xs, pivot, first). length xs - first)") auto

fun scan_down :: "('a \<Rightarrow> int) \<Rightarrow> 'a list \<Rightarrow> nat \<Rightarrow> nat \<Rightarrow> nat" where
  "scan_down key xs pivot 0 = 0"
| "scan_down key xs pivot (Suc l) =
     (if key (xs ! pivot) < key (xs ! Suc l) then scan_down key xs pivot l else Suc l)"

function unguarded_partition ::
  "('a \<Rightarrow> int) \<Rightarrow> 'a list \<Rightarrow> nat \<Rightarrow> nat \<Rightarrow> nat \<Rightarrow> 'a list \<times> nat" where
  "unguarded_partition key xs first last' pivot =
     (let f = scan_up key xs pivot first;
          l = scan_down key xs pivot (last' - 1)
      in if \<not> f < l then (xs, f)
         else unguarded_partition key (iter_swap xs f l) (f + 1) l pivot)"
  by pat_completeness auto
termination
proof (relation "measure (\<lambda>(key, xs, first, last', pivot). last')")
  show "wf (measure (\<lambda>(key, xs, first, last', pivot). last'))" by simp
next
  fix key :: "'a \<Rightarrow> int" and xs first last' pivot f l
  assume f: "f = scan_up key xs pivot first" and l: "l = scan_down key xs pivot (last' - 1)"
    and lt: "\<not> \<not> f < l"
  have le: "scan_down key xs pivot n \<le> n" for n by (induction n) auto
  have "l \<le> last' - 1" using l le by simp
  moreover have "0 < l" using lt by simp
  ultimately have "l < last'" by simp
  then show "((key, iter_swap xs f l, f + 1, l, pivot), (key, xs, first, last', pivot))
      \<in> measure (\<lambda>(key, xs, first, last', pivot). last')"
    by simp
qed

definition unguarded_partition_pivot ::
  "('a \<Rightarrow> int) \<Rightarrow> 'a list \<Rightarrow> nat \<Rightarrow> nat \<Rightarrow> 'a list \<times> nat" where
  "unguarded_partition_pivot key xs first last' =
     (let mid = first + (last' - first) div 2;
          xs1 = move_median_to_first key xs first (first + 1) mid (last' - 1)
      in unguarded_partition key xs1 (first + 1) last' first)"

function push_heap :: "('a \<Rightarrow> int) \<Rightarrow> 'a list \<Rightarrow> nat \<Rightarrow> nat \<Rightarrow> nat \<Rightarrow> 'a \<Rightarrow> 'a list" where
  "push_heap key xs first holeIndex topIndex val =
     (let parent = (holeIndex - 1) div 2
      in if holeIndex > topIndex \<and> key (xs ! (first + parent)) < key val
         then push_heap key (xs[first + holeIndex := xs ! (first + parent)]) first parent topIndex val
         else xs[first + holeIndex := val])"
  by pat_completeness auto
termination
  by (relation "measure (\<lambda>(key, xs, first, holeIndex, topIndex, val). holeIndex)") auto

function sift_down :: "('a \<Rightarrow> int) \<Rightarrow> 'a list \<Rightarrow> nat \<Rightarrow> nat \<Rightarrow> nat \<Rightarrow> 'a list \<times> nat" where
  "sift_down key xs first len secondChild =
     (if secondChild < (len - 1) div 2 then
        (let c = 2 * (secondChild + 1);
             c1 = (if key (xs ! (first + c)) < key (xs ! (first + (c - 1))) then c - 1 else c)
         in sift_down key (xs[first + secondChild := xs ! (first + c1)]) first len c1)
      else (xs, secondChild))"
  by pat_completeness auto
termination
  by (relation "measure (\<lambda>(key, xs, first, len, secondChild). len - secondChild)") auto

definition adjust_heap :: "('a \<Rightarrow> int) \<Rightarrow> 'a list \<Rightarrow> nat \<Rightarrow> nat \<Rightarrow> nat \<Rightarrow> 'a \<Rightarrow> 'a list" where
  "adjust_heap key xs first holeIndex len val =
     (case sift_down key xs first len holeIndex of
        (xs1, h1) \<Rightarrow>
          if even len \<and> 2 \<le> len \<and> h1 = (len - 2) div 2
          then push_heap key (xs1[first + h1 := xs1 ! (first + (2 * (h1 + 1) - 1))])
                 first (2 * (h1 + 1) - 1) holeIndex val
          else push_heap key xs1 first h1 holeIndex val)"

definition make_heap :: "('a \<Rightarrow> int) \<Rightarrow> 'a list \<Rightarrow> nat \<Rightarrow> nat \<Rightarrow> 'a list" where
  "make_heap key xs first last' =
     (if last' - first < 2 then xs
      else foldl (\<lambda>ys parent. adjust_heap key ys first parent (last' - first) (ys ! (first + parent)))
             xs (rev [0..<Suc ((last' - first - 2) div 2)]))"

definition pop_heap :: "('a \<Rightarrow> int) \<Rightarrow> 'a list \<Rightarrow> nat \<Rightarrow> nat \<Rightarrow> nat \<Rightarrow> 'a list" where
  "pop_heap key xs first last' result =
     adjust_heap key (xs[result := xs ! first]) first 0 (last' - first) (xs ! result)"

definition sort_heap :: "('a \<Rightarrow> int) \<Rightarrow> 'a list \<Rightarrow> nat \<Rightarrow> nat \<Rightarrow> 'a list" where
  "sort_heap key xs first last' =
     foldl (\<lambda>ys l. pop_heap key ys first l l) xs (rev [first + 1..<last'])"

definition partial_sort :: "('a \<Rightarrow> int) \<Rightarrow> 'a list \<Rightarrow> nat \<Rightarrow> nat \<Rightarrow> 'a list" where
  "partial_sort key xs first last' = sort_heap key (make_heap key xs first last') first last'"

fun introsort_loop :: "('a \<Rightarrow> int) \<Rightarrow> 'a list \<Rightarrow> nat \<Rightarrow> nat \<Rightarrow> nat \<Rightarrow> 'a list" where
  "introsort_loop key xs first last' 0 =
     (if last' - first > 16 then partial_sort key xs first last' else xs)"
| "introsort_loop key xs first last' (Suc depth_limit) =
     (if last' - first > 16 then
        (case unguarded_partition_pivot key xs first last' of
           (xs1, cut') \<Rightarrow>
             introsort_loop key (introsort_loop key xs1 cut' last' depth_limit) first cut' depth_limit)
      else xs)"

fun unguarded_linear_insert :: "('a \<Rightarrow> int) \<Rightarrow> 'a \<Rightarrow> 'a list \<Rightarrow> nat \<Rightarrow> 'a list" where
  "unguarded_linear_insert key val xs 0 = xs[0 := val]"
| "unguarded_linear_insert key val xs (Suc next) =
     (if key val < key (xs ! next)
      then unguarded_linear_insert key val (xs[Suc next := xs ! next]) next
      else xs[Suc next := val])"

definition insertion_step :: "('a \<Rightarrow> int) \<Rightarrow> 'a list \<Rightarrow> nat \<Rightarrow> 'a list" where
  "insertion_step key xs i =
     (if key (xs ! i) < key (xs ! 0) then xs ! i # take i xs @ drop (Suc i) xs
      else unguarded_linear_insert key (xs ! i) xs i)"

definition insertion_sort :: "('a \<Rightarrow> int) \<Rightarrow> 'a list \<Rightarrow> nat \<Rightarrow> 'a list" where
  "insertion_sort key xs last' = foldl (insertion_step key) xs [1..<last']"

definition unguarded_insertion_sort :: "('a \<Rightarrow> int) \<Rightarrow> 'a list \<Rightarrow> nat \<Rightarrow> nat \<Rightarrow> 'a list" where
  "unguarded_insertion_sort key xs first last' =
     foldl (\<lambda>ys i. unguarded_linear_insert key (ys ! i) ys i) xs [first..<last']"

definition final_insertion_sort :: "('a \<Rightarrow> int) \<Rightarrow> 'a list \<Rightarrow> 'a list" where
  "final_insertion_sort key xs =
     (if length xs > 16
      then unguarded_insertion_sort key (insertion_sort key xs 16) 16 (length xs)
      else insertion_sort key xs (length xs))"

fun lg :: "nat \<Rightarrow> nat" where
  "lg n = (if n < 2 then 0 else Suc (lg (n div 2)))"

definition gnu_sort :: "('a \<Rightarrow> int) \<Rightarrow> 'a list \<Rightarrow> 'a list" where
  "gnu_sort key xs =
     (if xs = [] then xs
      else final_insertion_sort key
             (introsort_loop key xs 0 (length xs) (2 * lg (length xs))))"

section \<open>Predicates of the properties\<close>

text \<open>
  The order of the selection rule: \<open>i\<close> is preferred to \<open>j\<close> when its key is smaller, or
  the keys are equal and it arrived earlier, or both are equal and it comes first in
  the vector.
\<close>

definition preferred :: "(process \<Rightarrow> int) \<Rightarrow> process list \<Rightarrow> nat \<Rightarrow> nat \<Rightarrow> bool" where
  "preferred key ps i j \<longleftrightarrow>
     key (ps ! i) < key (ps ! j) \<or>
     (key (ps ! i) = key (ps ! j) \<and>
        (at (ps ! i) < at (ps ! j) \<or> (at (ps ! i) = at (ps ! j) \<and> i \<le> j)))"

text \<open>The selection loop after the indices below \<open>k\<close>.\<close>

definition select_inv ::
  "(process \<Rightarrow> int) \<Rightarrow> (nat \<Rightarrow> bool) \<Rightarrow> process list \<Rightarrow> nat \<Rightarrow> int \<times> nat option \<Rightarrow> bool" where
  "select_inv key ready ps k st \<longleftrightarrow>
     (case snd st of
        None \<Rightarrow> fst st = INT_MAX \<and> (\<forall>j<k. ready j \<longrightarrow> INT_MAX \<le> key (ps ! j))
      | Some i \<Rightarrow> i < k \<and> ready i \<and> fst st = key (ps ! i) \<and> fst st < INT_MAX \<and>
                  (\<forall>j<k. ready j \<longrightarrow> preferred key ps i j))"

text \<open>
  The non-idle segments of a chart, each with its length, in the order of the chart.
\<close>

definition runs :: "(label \<times> int \<times> int) list \<Rightarrow> (label \<times> int) list" where
  "runs segs = map (\<lambda>(l, a, b). (l, b - a)) (filter (\<lambda>(l, a, b). l \<noteq> IDLE) segs)"

text \<open>
  The order the specification gives for FCFS: the input sorted by arrival, ties by pid
  (a stable sort by arrival of the input sorted by pid).
\<close>

definition spec_fcfs_order :: "process list \<Rightarrow> process list" where
  "spec_fcfs_order ps = sort_key at (sort_key pid ps)"

text \<open>
  A valid input, in the words of the specification: at least one process, pids positive
  and unique, arrivals and priorities not negative, bursts positive.
\<close>

definition valid_input :: "process list \<Rightarrow> bool" where
  "valid_input ps \<longleftrightarrow>
     ps \<noteq> [] \<and> distinct (map pid ps) \<and>
     (\<forall>p \<in> set ps. 0 < pid p \<and> 0 \<le> at p \<and> 0 < bt p \<and> 0 \<le> priority p)"

text \<open>The bursts of the processes that arrive at \<open>a\<close> or later.\<close>

definition work_from :: "int \<Rightarrow> process list \<Rightarrow> int" where
  "work_from a ps = sum_list (map (\<lambda>p. if a \<le> at p then bt p else 0) ps)"

text \<open>
  The makespan of an input: the processes that arrive at \<open>a\<close> or later cannot all be
  done before \<open>a\<close> plus their bursts, nor all the processes before the sum of all the
  bursts, and a processor that is never idle while a process that has arrived has work
  left is done at the largest of these sums. While that is at most \<open>INT_MAX\<close>, no
  completion time that a scheduler writes is beyond it (it is part of \<open>metrics_of\<close>
  below).
\<close>

definition makespan :: "process list \<Rightarrow> int" where
  "makespan ps =
     Max (set (sum_list (map bt ps) # map (\<lambda>p. at p + work_from (at p) ps) ps))"

text \<open>
  No burst or priority is the sentinel \<open>INT_MAX\<close> of the selection loops.
\<close>

definition below_INT_MAX :: "process list \<Rightarrow> bool" where
  "below_INT_MAX ps \<longleftrightarrow> (\<forall>p \<in> set ps. bt p < INT_MAX \<and> priority p < INT_MAX)"






section \<open>Predicates of the proofs\<close>

text \<open>
  The row \<open>p\<close> with the metrics of a completion at time \<open>t\<close>, in mathematical integers:
  what \<open>finish\<close> writes when nothing overflows.
\<close>

definition completed_at :: "int \<Rightarrow> process \<Rightarrow> process" where
  "completed_at t p = p\<lparr>ct := t, tat := t - at p, wt := t - at p - bt p\<rparr>"

text \<open>
  The row \<open>p\<close> is the input row \<open>p0\<close> completed at some time not before arrival plus
  burst (whatever its remaining burst was set to on the way).
\<close>

definition finished :: "process \<Rightarrow> process \<Rightarrow> bool" where
  "finished p0 p \<longleftrightarrow> (\<exists>t r. p = (completed_at t p0)\<lparr>rem_bt := r\<rparr> \<and> at p0 + bt p0 \<le> t)"

text \<open>
  The bound \<open>B\<close> is within the range of \<open>int\<close> and the vector \<open>ps\<close> fits below it:
  arrivals are not negative, bursts positive, and all the bursts, and any arrival plus
  the bursts from that arrival on, are at most \<open>B\<close>.
\<close>

definition bounded :: "int \<Rightarrow> process list \<Rightarrow> bool" where
  "bounded B ps \<longleftrightarrow>
     B \<le> INT_MAX \<and> sum_list (map bt ps) \<le> B \<and>
     (\<forall>p \<in> set ps. 0 \<le> at p \<and> 0 < bt p \<and> at p + work_from (at p) ps \<le> B)"

text \<open>
  The loop of FCFS over the vector \<open>qs\<close>, after the indices below \<open>k\<close>: what holds of the
  chart whatever the clock does.
\<close>

definition fcfs_labels :: "process list \<Rightarrow> nat \<Rightarrow> chart \<Rightarrow> bool" where
  "fcfs_labels qs k s \<longleftrightarrow>
     length (procs s) = length qs \<and>
     (\<forall>i. k \<le> i \<and> i < length qs \<longrightarrow> procs s ! i = qs ! i) \<and>
     map pid (procs s) = map pid qs \<and>
     length (timeline s) = Suc (length (blocks s)) \<and>
     map fst (runs (segments (blocks s) (timeline s))) = map (\<lambda>p. P (pid p)) (take k qs)"

text \<open>The same loop, over a vector sorted by arrival, while the clock stays at or below \<open>B\<close>.\<close>

definition fcfs_inv :: "int \<Rightarrow> process list \<Rightarrow> nat \<Rightarrow> chart \<Rightarrow> bool" where
  "fcfs_inv B qs k s \<longleftrightarrow>
     length (procs s) = length qs \<and>
     (\<forall>i. k \<le> i \<and> i < length qs \<longrightarrow> procs s ! i = qs ! i) \<and>
     (\<forall>i<k. \<exists>t. procs s ! i = completed_at t (qs ! i) \<and> at (qs ! i) + bt (qs ! i) \<le> t \<and> t \<le> B) \<and>
     length (timeline s) = Suc (length (blocks s)) \<and>
     last (timeline s) = time s \<and>
     runs (segments (blocks s) (timeline s)) = map (\<lambda>p. (P (pid p), bt p)) (take k qs) \<and>
     0 \<le> time s \<and> time s + sum_list (map bt (drop k qs)) \<le> B"






text \<open>
  The row \<open>p\<close> is the input row \<open>p0\<close> with \<open>r\<close> units left, and the units it has run
  fit between its arrival and now.
\<close>

definition running :: "process \<Rightarrow> int \<Rightarrow> process \<Rightarrow> bool" where
  "running p0 now p \<longleftrightarrow>
     (\<exists>r. p = p0\<lparr>rem_bt := r\<rparr> \<and> 0 < r \<and> r \<le> bt p0 \<and> (r < bt p0 \<longrightarrow> at p0 + (bt p0 - r) \<le> now))"

text \<open>The vector of SRTF and Round Robin against the input \<open>ps\<close>: every row is finished or running.\<close>

definition rows_inv :: "process list \<Rightarrow> int \<Rightarrow> process list \<Rightarrow> bool" where
  "rows_inv ps now qs \<longleftrightarrow>
     length qs = length ps \<and>
     (\<forall>i < length ps. if rem_bt (qs ! i) = 0 then finished (ps ! i) (qs ! i)
                       else running (ps ! i) now (qs ! i))"

text \<open>The work left of the rows that arrive at \<open>a\<close> or later.\<close>

definition left_from :: "int \<Rightarrow> process list \<Rightarrow> int" where
  "left_from a qs = sum_list (map (\<lambda>q. if a \<le> at q then rem_bt q else 0) qs)"

text \<open>
  The clock of SRTF and Round Robin stays at or below \<open>B\<close>: the time now plus the work
  left is at most \<open>B\<close>, so is any arrival plus the work left from that arrival on, and
  the finished rows completed by \<open>B\<close>.
\<close>

definition within :: "int \<Rightarrow> process list \<Rightarrow> int \<Rightarrow> process list \<Rightarrow> bool" where
  "within B ps now qs \<longleftrightarrow>
     0 \<le> now \<and> now + sum_list (map rem_bt qs) \<le> B \<and>
     (\<forall>i < length ps. at (ps ! i) + left_from (at (ps ! i)) qs \<le> B) \<and>
     (\<forall>i < length ps. rem_bt (qs ! i) = 0 \<longrightarrow> ct (qs ! i) \<le> B)"

text \<open>
  The chart at the head of an iteration of SRTF: the timeline is at least as long as
  the blocks, and longer unless a block is open; an open block is that of a process
  that is ready and has run.
\<close>

definition srtf_chart :: "srtf_state \<Rightarrow> bool" where
  "srtf_chart s \<longleftrightarrow>
     length (blocks s) \<le> length (timeline s) \<and>
     (case last_block_id s of
        P x \<Rightarrow> (\<exists>i < length (procs s). srtf_ready (procs s) (time s) i \<and>
                  rem_bt (procs s ! i) < bt (procs s ! i))
      | _ \<Rightarrow> length (blocks s) < length (timeline s))"

text \<open>The loop of SRTF on the input \<open>ps\<close>, with the clock at or below \<open>B\<close>.\<close>

definition srtf_inv :: "int \<Rightarrow> process list \<Rightarrow> srtf_state \<Rightarrow> bool" where
  "srtf_inv B ps s \<longleftrightarrow>
     rows_inv ps (time s) (procs s) \<and>
     completedCount s = int (length (filter (\<lambda>p. rem_bt p = 0) (procs s))) \<and>
     within B ps (time s) (procs s) \<and> srtf_chart s"




text \<open>
  The chart at the head of an iteration of Round Robin: no block is open, and the
  timeline is longer than the blocks.
\<close>

definition rr_chart :: "rr_state \<Rightarrow> bool" where
  "rr_chart s \<longleftrightarrow>
     (last_block_id s = NoBlock \<or> last_block_id s = IDLE) \<and>
     length (blocks s) < length (timeline s)"

chapter \<open>Properties\<close>

section \<open>Sorting\<close>

lemma sorted_distinct_key_unique:
  assumes "mset ys = mset xs" "sorted (map f ys)" "sorted (map f xs)" "distinct (map f xs)"
  shows "ys = xs"
proof -
  have m: "mset (map f ys) = mset (map f xs)" using assms(1) by simp
  have d: "distinct (map f ys)" using m assms(4) by (metis mset_eq_imp_distinct_iff)
  have s: "set (map f ys) = set (map f xs)" using m by (metis mset_eq_setD)
  have e: "map f ys = map f xs"
    using sorted_distinct_set_unique [OF assms(2) d assms(3) assms(4) s] .
  have "set ys = set xs" using assms(1) by (metis mset_eq_setD)
  moreover have "inj_on f (set xs)" using assms(4) by (simp add: distinct_map)
  ultimately have "inj_on f (set ys \<union> set xs)" by simp
  then show ?thesis using e by (simp add: inj_on_map_eq_map)
qed

text \<open>A vector whose keys are already strictly increasing is left as it is.\<close>

lemma std_sort_id:
  "std_sort srt \<Longrightarrow> sorted (map key xs) \<Longrightarrow> distinct (map key xs) \<Longrightarrow> srt key xs = xs"
  unfolding std_sort_def by (blast intro: sorted_distinct_key_unique)

text \<open>Insertion sort is one function that meets the contract.\<close>

lemma std_sort_sort_key: "std_sort sort_key"
  unfolding std_sort_def by simp

lemma table_finish_chart: "table (finish_chart srt s) = srt pid (procs s)"
  by (simp add: finish_chart_def printResults_def split: prod.split)

lemma gantt_finish_chart:
  "gantt (finish_chart srt s) =
     segments (snd (cleanup (blocks s) (timeline s))) (fst (cleanup (blocks s) (timeline s)))"
  by (simp add: gantt_def finish_chart_def printResults_def split: prod.split)

lemma idle_time_finish_chart:
  "idle_time (finish_chart srt s) =
     idleTime (snd (cleanup (blocks s) (timeline s))) (fst (cleanup (blocks s) (timeline s)))"
  by (simp add: finish_chart_def printResults_def split: prod.split)

section \<open>SRTF on scenario S4\<close>

lemma SRTF_loop_S4:
  "SRTF_loop (SRTF_init S4) = Some
     \<lparr>procs =
        [\<lparr>pid = 1, at = 0, bt = 7, rem_bt = 0, ct = 12, tat = 12, wt = 5, priority = 0\<rparr>,
         \<lparr>pid = 2, at = 2, bt = 4, rem_bt = 0, ct = 7, tat = 5, wt = 1, priority = 0\<rparr>,
         \<lparr>pid = 3, at = 4, bt = 1, rem_bt = 0, ct = 5, tat = 1, wt = 0, priority = 0\<rparr>],
      time = 12, timeline = [0, 0, 2, 4, 5, 5, 7, 7, 12],
      blocks = [P 1, P 2, P 3, P 2, P 1], completedCount = 3, last_block_id = NoBlock\<rparr>"
  by code_simp

lemma cleanup_S4:
  "cleanup [P 1, P 2, P 3, P 2, P 1] [0, 0, 2, 4, 5, 5, 7, 7, 12] =
     ([0, 0, 2, 4, 5, 12], [P 1, P 2, P 3, P 2, P 1])"
  by code_simp

lemma SRTF_S4_gantt:
  "map_option gantt (SRTF srt S4) =
     Some [(P 1, 0, 0), (P 2, 0, 2), (P 3, 2, 4), (P 2, 4, 5), (P 1, 5, 12)]"
  by (simp add: SRTF_def SRTF_loop_S4 gantt_finish_chart cleanup_S4 segments_def)

lemma SRTF_S4_table:
  assumes "std_sort srt"
  shows "map_option completion_times (SRTF srt S4) = Some [(1, 12), (2, 7), (3, 5)]"
proof -
  let ?ps = "[\<lparr>pid = 1, at = 0, bt = 7, rem_bt = 0, ct = 12, tat = 12, wt = 5, priority = 0\<rparr>,
         \<lparr>pid = 2, at = 2, bt = 4, rem_bt = 0, ct = 7, tat = 5, wt = 1, priority = 0\<rparr>,
         \<lparr>pid = 3, at = 4, bt = 1, rem_bt = 0, ct = 5, tat = 1, wt = 0, priority = 0\<rparr>]"
  have "srt pid ?ps = ?ps" by (rule std_sort_id [OF assms]) simp_all
  then show ?thesis
    by (simp add: SRTF_def SRTF_loop_S4 table_finish_chart completion_times_def)
qed

text \<open>
  Claim C8: SRTF on scenario S4 (P1 arrives at 0 with burst 7, P2 at 2 with burst 4, P3 at
  4 with burst 1) returns, and its table gives the completion times P1 = 12, P2 = 7 and
  P3 = 5, whatever conforming \<open>std::sort\<close> orders the table.
\<close>

theorem SRTF_S4_completion_times:
  assumes "std_sort srt"
  shows "map_option completion_times (SRTF srt S4) = Some [(1, 12), (2, 7), (3, 5)]"
  using assms by (rule SRTF_S4_table)

theorem SRTF_S4_completion_times_witness:
  "std_sort sort_key \<and>
   map_option completion_times (SRTF sort_key S4) = Some [(1, 12), (2, 7), (3, 5)]"
  using SRTF_S4_completion_times [OF std_sort_sort_key] std_sort_sort_key by simp

text \<open>
  Claim C2: the chart SRTF emits on scenario S4. The claim expects the segments
  P1[0,2] P2[2,4] P3[4,5] P2[5,7] P1[7,12]. The loop pushes the start of a block onto a
  timeline that already holds its initial 0 and pushes the time of every completion as
  well, and the merging pass then reads \<open>timeline[i]\<close> as the start of block \<open>i\<close>: the
  chart that comes out has the five blocks over the timeline 0 0 2 4 5 12, that is
  P1[0,0] P2[0,2] P3[2,4] P2[4,5] P1[5,12], and the boundary 7 is gone.
\<close>

theorem SRTF_S4_chart:
  "map_option gantt (SRTF srt S4) =
     Some [(P 1, 0, 0), (P 2, 0, 2), (P 3, 2, 4), (P 2, 4, 5), (P 1, 5, 12)] \<and>
   map_option gantt (SRTF srt S4) \<noteq> Some S4_expected \<and>
   map_option (\<lambda>r. 7 \<in> set (gantt_timeline r)) (SRTF srt S4) = Some False"
proof -
  have "map_option gantt_timeline (SRTF srt S4) = Some [0, 0, 2, 4, 5, 12]"
    by (simp add: SRTF_def SRTF_loop_S4 finish_chart_def cleanup_S4 printResults_def)
  then have "map_option (\<lambda>r. 7 \<in> set (gantt_timeline r)) (SRTF srt S4) = Some False"
    by (cases "SRTF srt S4") auto
  then show ?thesis by (simp add: SRTF_S4_gantt S4_expected_def)
qed

text \<open>
  Claim C3: the time under the label of a process is its burst. On scenario S4 the chart
  of SRTF gives P1 its 7 units, but P2 (burst 4) gets 3 and P3 (burst 1) gets 2.
\<close>

theorem SRTF_S4_labeled_time:
  "map_option (\<lambda>r. map (labeled_time r) [1, 2, 3]) (SRTF srt S4) = Some [7, 3, 2] \<and>
   map bt S4 = [7, 4, 1]"
proof -
  obtain r where r: "SRTF srt S4 = Some r"
    and g: "gantt r = [(P 1, 0, 0), (P 2, 0, 2), (P 3, 2, 4), (P 2, 4, 5), (P 1, 5, 12)]"
    using SRTF_S4_gantt [of srt] by (cases "SRTF srt S4") auto
  have l: "map (labeled_time r) [1, 2, 3] = [7, 3, 2]"
    by (simp add: labeled_time_def g)
  have b: "map bt S4 = [7, 4, 1]"
    by (simp add: S4_def Process_def)
  show ?thesis using l b by (simp add: r)
qed

section \<open>Round Robin on scenario S5\<close>

lemma RR_loop_S5:
  "RR_loop 2 (RR_init S5) = Some
     \<lparr>procs =
        [\<lparr>pid = 1, at = 0, bt = 5, rem_bt = 0, ct = 10, tat = 10, wt = 5, priority = 0\<rparr>,
         \<lparr>pid = 2, at = 1, bt = 3, rem_bt = 0, ct = 9, tat = 8, wt = 5, priority = 0\<rparr>,
         \<lparr>pid = 3, at = 2, bt = 2, rem_bt = 0, ct = 6, tat = 4, wt = 2, priority = 0\<rparr>],
      time = 10, timeline = [0, 0, 2, 2, 4, 4, 6, 6, 8, 8, 9, 9, 10],
      blocks = [P 1, P 2, P 3, P 1, P 2, P 1], completedCount = 3,
      last_block_id = NoBlock, readyQueue = [],
      inQueue = [False, False, False], next_proc_to_arrive = 3\<rparr>"
  by code_simp

lemma RR_S5_table:
  assumes "std_sort srt"
  shows "map_option (map_sum id completion_times) (RoundRobin srt S5 2) =
           Some (Inr [(1, 10), (2, 9), (3, 6)])"
proof -
  let ?ps = "[\<lparr>pid = 1, at = 0, bt = 5, rem_bt = 0, ct = 10, tat = 10, wt = 5, priority = 0\<rparr>,
         \<lparr>pid = 2, at = 1, bt = 3, rem_bt = 0, ct = 9, tat = 8, wt = 5, priority = 0\<rparr>,
         \<lparr>pid = 3, at = 2, bt = 2, rem_bt = 0, ct = 6, tat = 4, wt = 2, priority = 0\<rparr>]"
  have a: "srt at S5 = S5"
    by (rule std_sort_id [OF assms]) (simp_all add: S5_def Process_def)
  have ok: "S5 \<noteq> []"
    by (simp add: S5_def)
  have p: "srt pid ?ps = ?ps"
    by (rule std_sort_id [OF assms]) simp_all
  show ?thesis
    by (simp add: RoundRobin_def a ok RR_loop_S5 table_finish_chart completion_times_def p)
qed

text \<open>
  Claim C1, as amended: Round Robin on scenario S5 (P1 arrives at 0 with burst 5, P2 at 1
  with burst 3, P3 at 2 with burst 2; quantum 2) returns a table with the completion
  times P1 = 10, P2 = 9 and P3 = 6. P1 has one unit left after its second quantum [6,8]
  and runs it over [9,10].
\<close>

theorem RR_S5_completion_times:
  assumes "std_sort srt"
  shows "map_option (map_sum id completion_times) (RoundRobin srt S5 2) =
           Some (Inr [(1, 10), (2, 9), (3, 6)])"
  using assms by (rule RR_S5_table)

theorem RR_S5_completion_times_witness:
  "std_sort sort_key \<and>
   map_option (map_sum id completion_times) (RoundRobin sort_key S5 2) =
     Some (Inr [(1, 10), (2, 9), (3, 6)])"
  using RR_S5_completion_times [OF std_sort_sort_key] std_sort_sort_key by simp

text \<open>Claim C1 as stated, with P1 = 11, does not hold of the run.\<close>

theorem RR_S5_not_11:
  "map_option (map_sum id completion_times) (RoundRobin sort_key S5 2) \<noteq>
     Some (Inr [(1, 11), (2, 9), (3, 6)])"
  by (simp add: RR_S5_table [OF std_sort_sort_key])

section \<open>The five policies on scenario S6\<close>

lemma FCFS_loop_S6:
  "FCFS_loop S6 =
     \<lparr>procs = [\<lparr>pid = 1, at = 10, bt = 3, rem_bt = 3, ct = 13, tat = 3, wt = 0, priority = 0\<rparr>],
      time = 13, timeline = [0, 10, 13], blocks = [IDLE, P 1]\<rparr>"
  by code_simp

lemma SJF_loop_S6:
  "np_loop bt (np_init S6) = Some
     \<lparr>procs = [\<lparr>pid = 1, at = 10, bt = 3, rem_bt = 3, ct = 13, tat = 3, wt = 0, priority = 0\<rparr>],
      time = 13, timeline = [0, 10, 13], blocks = [IDLE, P 1],
      completedCount = 1, completed = [True]\<rparr>"
  by code_simp

lemma Priority_loop_S6:
  "np_loop priority (np_init S6) = Some
     \<lparr>procs = [\<lparr>pid = 1, at = 10, bt = 3, rem_bt = 3, ct = 13, tat = 3, wt = 0, priority = 0\<rparr>],
      time = 13, timeline = [0, 10, 13], blocks = [IDLE, P 1],
      completedCount = 1, completed = [True]\<rparr>"
  by code_simp

lemma SRTF_loop_S6:
  "SRTF_loop (SRTF_init S6) = Some
     \<lparr>procs = [\<lparr>pid = 1, at = 10, bt = 3, rem_bt = 0, ct = 13, tat = 3, wt = 0, priority = 0\<rparr>],
      time = 13, timeline = [0, 0, 13], blocks = [IDLE, P 1],
      completedCount = 1, last_block_id = NoBlock\<rparr>"
  by code_simp

lemma RR_loop_S6:
  "RR_loop 2 (RR_init S6) = Some
     \<lparr>procs = [\<lparr>pid = 1, at = 10, bt = 3, rem_bt = 0, ct = 13, tat = 3, wt = 0, priority = 0\<rparr>],
      time = 13, timeline = [0, 0, 12, 12, 13], blocks = [IDLE, P 1, P 1],
      completedCount = 1, last_block_id = NoBlock, readyQueue = [],
      inQueue = [False], next_proc_to_arrive = 1\<rparr>"
  by code_simp

lemma cleanup_S6:
  "cleanup [IDLE, P 1] [0, 0, 13] = ([0, 0, 13], [IDLE, P 1])"
  "cleanup [IDLE, P 1, P 1] [0, 0, 12, 12, 13] = ([0, 0, 13], [IDLE, P 1])"
  by code_simp+

lemma idleTime_S6:
  "idleTime [IDLE, P 1] [0, 10, 13] = 10"
  "idleTime [IDLE, P 1] [0, 0, 13] = 0"
  by code_simp+

lemma std_sort_single: "std_sort srt \<Longrightarrow> srt key [p] = [p]"
  by (rule std_sort_id) simp_all

text \<open>
  Claim C4: the single process P1(at=10, bt=3) under every policy. FCFS, SJF and
  PriorityScheduling emit IDLE[0,10] P1[10,13] and idle time 10. SRTF and Round Robin
  (here with quantum 2) push the start of the idle block, 0, onto the timeline that
  already holds 0, and never push the arrival 10: they emit the blocks IDLE P1 over the
  timeline 0 0 13, that is IDLE[0,0] P1[0,13], and idle time 0. All five report
  CT = 13 and WT = 0.
\<close>

theorem S6_five_policies:
  assumes "std_sort srt"
  shows "chart_and_metrics (FCFS srt S6) = ([(IDLE, 0, 10), (P 1, 10, 13)], 10, [(1, 13, 0)]) \<and>
         map_option chart_and_metrics (SJF srt S6) =
           Some ([(IDLE, 0, 10), (P 1, 10, 13)], 10, [(1, 13, 0)]) \<and>
         map_option chart_and_metrics (PriorityScheduling srt S6) =
           Some ([(IDLE, 0, 10), (P 1, 10, 13)], 10, [(1, 13, 0)]) \<and>
         map_option chart_and_metrics (SRTF srt S6) =
           Some ([(IDLE, 0, 0), (P 1, 0, 13)], 0, [(1, 13, 0)]) \<and>
         map_option (map_sum id chart_and_metrics) (RoundRobin srt S6 2) =
           Some (Inr ([(IDLE, 0, 0), (P 1, 0, 13)], 0, [(1, 13, 0)]))"
proof -
  note one = std_sort_single [OF assms]
  have s6: "srt at S6 = S6" unfolding S6_def by (rule one)
  have fcfs: "chart_and_metrics (FCFS srt S6) =
      ([(IDLE, 0, 10), (P 1, 10, 13)], 10, [(1, 13, 0)])"
    by (simp add: FCFS_def s6 FCFS_loop_S6 chart_and_metrics_def printResults_def gantt_def
        segments_def idleTime_S6 one)
  have sjf: "map_option chart_and_metrics (SJF srt S6) =
      Some ([(IDLE, 0, 10), (P 1, 10, 13)], 10, [(1, 13, 0)])"
    by (simp add: SJF_def np_schedule_def SJF_loop_S6 chart_and_metrics_def printResults_def
        gantt_def segments_def idleTime_S6 one)
  have pri: "map_option chart_and_metrics (PriorityScheduling srt S6) =
      Some ([(IDLE, 0, 10), (P 1, 10, 13)], 10, [(1, 13, 0)])"
    by (simp add: PriorityScheduling_def np_schedule_def Priority_loop_S6 chart_and_metrics_def
        printResults_def gantt_def segments_def idleTime_S6 one)
  have srtf: "map_option chart_and_metrics (SRTF srt S6) =
      Some ([(IDLE, 0, 0), (P 1, 0, 13)], 0, [(1, 13, 0)])"
    by (simp add: SRTF_def SRTF_loop_S6 chart_and_metrics_def gantt_finish_chart
        idle_time_finish_chart table_finish_chart cleanup_S6 segments_def idleTime_S6 one)
  have ok: "S6 \<noteq> []"
    by (simp add: S6_def)
  have rr: "map_option (map_sum id chart_and_metrics) (RoundRobin srt S6 2) =
      Some (Inr ([(IDLE, 0, 0), (P 1, 0, 13)], 0, [(1, 13, 0)]))"
    by (simp add: RoundRobin_def s6 ok RR_loop_S6 chart_and_metrics_def gantt_finish_chart
        idle_time_finish_chart table_finish_chart cleanup_S6 segments_def idleTime_S6 one)
  show ?thesis using fcfs sjf pri srtf rr by simp
qed

theorem S6_five_policies_witness:
  "std_sort sort_key \<and>
   map_option chart_and_metrics (SRTF sort_key S6) =
     Some ([(IDLE, 0, 0), (P 1, 0, 13)], 0, [(1, 13, 0)])"
  using S6_five_policies [OF std_sort_sort_key] std_sort_sort_key by simp

section \<open>A priority of INT_MAX\<close>

lemma stuck_step:
  assumes "stuck s"
  shows "select_min priority (np_ready (procs s) (completed s) (time s)) (procs s) = None"
    and "np_next_arrival (procs s) (completed s) = 0"
    and "stuck (np_idle 0 s)"
  using assms
  by (simp_all add: stuck_def P_max_priority_def select_min_def select_step_def np_ready_def
      np_next_arrival_def Process_def INT_MAX_def np_idle_def)

text \<open>From a stuck state the loop takes the idle branch into a stuck state, for ever.\<close>

lemma stuck_never_returns:
  assumes "np_loop priority s = Some y"
  shows "\<not> stuck s"
proof -
  have "(priority :: process \<Rightarrow> int) = priority \<longrightarrow> \<not> stuck s"
  proof (rule np_loop.raw_induct
      [where P = "\<lambda>key s y. key = (priority :: process \<Rightarrow> int) \<longrightarrow> \<not> stuck s", OF _ assms])
    fix f :: "(process \<Rightarrow> int) \<Rightarrow> np_state \<Rightarrow> np_state option" and key s y
    assume IH: "\<And>k s y. f k s = Some y \<Longrightarrow> k = priority \<longrightarrow> \<not> stuck s"
      and body: "(if completedCount s < int (length (procs s)) then
        (case select_min key (np_ready (procs s) (completed s) (time s)) (procs s) of
           None \<Rightarrow>
             (if np_next_arrival (procs s) (completed s) \<noteq> INT_MAX
              then f key (np_idle (np_next_arrival (procs s) (completed s)) s)
              else Some s)
         | Some idx \<Rightarrow> f key (np_exec idx s))
      else Some s) = Some y"
    show "key = priority \<longrightarrow> \<not> stuck s"
    proof (intro impI notI)
      assume k: "key = priority" and st: "stuck s"
      have c: "completedCount s < int (length (procs s))"
        using st by (simp add: stuck_def P_max_priority_def)
      from body have "f key (np_idle 0 s) = Some y"
        using stuck_step [OF st] c k by (simp add: INT_MAX_def)
      then have "\<not> stuck (np_idle 0 s)" using IH k by blast
      then show False using stuck_step(3) [OF st] by simp
    qed
  qed
  then show ?thesis by simp
qed

text \<open>
  Claim C9: every scheduler returns on every valid input, with all processes completed.
  PriorityScheduling does not return on the single process P1(at=0, bt=1,
  priority=INT_MAX): the selection loop starts from \<open>minPriority = INT_MAX\<close> and takes a
  process only below it, or equal to it once an index is set, so P1 is never selected,
  and the idle branch sets the time to P1's arrival, 0, again and again.
\<close>

theorem PriorityScheduling_diverges:
  "PriorityScheduling srt P_max_priority = None"
proof -
  have "stuck (np_init P_max_priority)"
    by (simp add: stuck_def np_init_def P_max_priority_def)
  then have "np_loop priority (np_init P_max_priority) = None"
    using stuck_never_returns by (cases "np_loop priority (np_init P_max_priority)") auto
  then show ?thesis by (simp add: PriorityScheduling_def np_schedule_def)
qed

section \<open>What the selection loop returns\<close>

lemma preferred_refl: "preferred key ps i i"
  by (simp add: preferred_def)

lemma preferred_less:
  "key (ps ! k) < key (ps ! i) \<Longrightarrow> preferred key ps i j \<Longrightarrow> preferred key ps k j"
  by (auto simp: preferred_def)

lemma preferred_earlier:
  "key (ps ! k) = key (ps ! i) \<Longrightarrow> at (ps ! k) < at (ps ! i) \<Longrightarrow> preferred key ps i j
     \<Longrightarrow> preferred key ps k j"
  by (auto simp: preferred_def)

lemma select_inv_step:
  assumes "select_inv key ready ps k st"
  shows "select_inv key ready ps (Suc k) (select_step key ready ps st k)"
proof (cases st)
  case (Pair m idx)
  show ?thesis
  proof (cases idx)
    case None
    with Pair assms show ?thesis
      by (auto simp: select_inv_def select_step_def less_Suc_eq preferred_refl)
        (fastforce simp: preferred_def)
  next
    case (Some i)
    with Pair assms have i: "i < k" "ready i" "m = key (ps ! i)" "m < INT_MAX"
      and all: "\<forall>j<k. ready j \<longrightarrow> preferred key ps i j"
      by (simp_all add: select_inv_def)
    show ?thesis
    proof (cases "ready k")
      case False
      with Pair Some i all show ?thesis
        by (auto simp: select_inv_def select_step_def less_Suc_eq)
    next
      case True
      consider (lt) "key (ps ! k) < m" | (eq_lt) "key (ps ! k) = m" "at (ps ! k) < at (ps ! i)"
        | (eq_ge) "key (ps ! k) = m" "\<not> at (ps ! k) < at (ps ! i)" | (gt) "key (ps ! k) > m"
        by linarith
      then show ?thesis
      proof cases
        case lt
        then have "select_step key ready ps st k = (key (ps ! k), Some k)"
          using Pair True by (simp add: select_step_def)
        moreover have "\<forall>j<Suc k. ready j \<longrightarrow> preferred key ps k j"
          using all lt i(3) by (auto simp: less_Suc_eq preferred_refl intro: preferred_less)
        ultimately show ?thesis using True lt i by (simp add: select_inv_def)
      next
        case eq_lt
        then have "select_step key ready ps st k = (m, Some k)"
          using Pair Some True by (simp add: select_step_def)
        moreover have "\<forall>j<Suc k. ready j \<longrightarrow> preferred key ps k j"
          using all eq_lt i(3) by (auto simp: less_Suc_eq preferred_refl intro: preferred_earlier)
        ultimately show ?thesis using True eq_lt i by (simp add: select_inv_def)
      next
        case eq_ge
        then have "select_step key ready ps st k = (m, Some i)"
          using Pair Some True by (simp add: select_step_def)
        moreover have "preferred key ps i k"
          using eq_ge i by (auto simp: preferred_def)
        ultimately show ?thesis using all i by (simp add: select_inv_def less_Suc_eq)
      next
        case gt
        then have "select_step key ready ps st k = (m, Some i)"
          using Pair Some True by (simp add: select_step_def)
        moreover have "preferred key ps i k"
          using gt i by (auto simp: preferred_def)
        ultimately show ?thesis using all i by (simp add: select_inv_def less_Suc_eq)
      qed
    qed
  qed
qed

lemma select_inv_upto:
  "select_inv key ready ps k (foldl (select_step key ready ps) (INT_MAX, None) [0..<k])"
proof (induction k)
  case 0
  show ?case by (simp add: select_inv_def)
next
  case (Suc k)
  then show ?case by (simp add: select_inv_step)
qed

text \<open>What the loop returns: the preferred index among the ready ones.\<close>

lemma select_min_Some:
  assumes "select_min key ready ps = Some i"
  shows "i < length ps" "ready i" "key (ps ! i) < INT_MAX"
    "\<And>j. j < length ps \<Longrightarrow> ready j \<Longrightarrow> preferred key ps i j"
  using select_inv_upto [of key ready ps "length ps"] assms
  by (auto simp: select_min_def select_inv_def)

text \<open>It returns no index only when no ready process has a key below the sentinel.\<close>

lemma select_min_None:
  assumes "select_min key ready ps = None" "j < length ps" "ready j"
  shows "INT_MAX \<le> key (ps ! j)"
  using select_inv_upto [of key ready ps "length ps"] assms
  by (auto simp: select_min_def select_inv_def)

section \<open>The dispatch of SJF\<close>

text \<open>
  Claim C6: in any state of the loop of SJF in which the selection loop returns an index
  \<open>i\<close>, the loop goes on from the state after dispatching \<open>i\<close>, whose block is appended
  to the chart; \<open>i\<close> has arrived and is not completed; and every process \<open>j\<close> that has
  arrived and is not completed has a larger burst, or the same burst and a later arrival,
  or the same burst and arrival and a pid that is not smaller. The pids are taken to
  increase along the vector, as \<open>main\<close> numbers them.
\<close>

theorem SJF_dispatch_minimal:
  assumes "completedCount s < int (length (procs s))"
    and "select_min bt (np_ready (procs s) (completed s) (time s)) (procs s) = Some i"
    and "sorted_wrt (<) (map pid (procs s))"
  shows "np_loop bt s = np_loop bt (np_exec i s) \<and>
         blocks (np_exec i s) = blocks s @ [P (pid (procs s ! i))] \<and>
         i < length (procs s) \<and> \<not> completed s ! i \<and> at (procs s ! i) \<le> time s \<and>
         (\<forall>j < length (procs s). \<not> completed s ! j \<and> at (procs s ! j) \<le> time s \<longrightarrow>
            bt (procs s ! i) < bt (procs s ! j) \<or>
            (bt (procs s ! i) = bt (procs s ! j) \<and> at (procs s ! i) < at (procs s ! j)) \<or>
            (bt (procs s ! i) = bt (procs s ! j) \<and> at (procs s ! i) = at (procs s ! j) \<and>
               pid (procs s ! i) \<le> pid (procs s ! j)))"
proof -
  note sel = select_min_Some [OF assms(2)]
  have loop: "np_loop bt s = np_loop bt (np_exec i s)"
    using assms(1,2) by (subst np_loop.simps) simp
  have blk: "blocks (np_exec i s) = blocks s @ [P (pid (procs s ! i))]"
    by (simp add: np_exec_def Let_def)
  have rdy: "\<not> completed s ! i" "at (procs s ! i) \<le> time s"
    using sel(2) by (simp_all add: np_ready_def)
  have pids: "pid (procs s ! i) \<le> pid (procs s ! j)" if "j < length (procs s)" "i \<le> j" for j
  proof (cases "i = j")
    case False
    then have "i < j" using that by simp
    then have "map pid (procs s) ! i < map pid (procs s) ! j"
      using sorted_wrt_nth_less [OF assms(3), of i j] that by simp
    then show ?thesis using that sel(1) by simp
  qed simp
  have "bt (procs s ! i) < bt (procs s ! j) \<or>
            (bt (procs s ! i) = bt (procs s ! j) \<and> at (procs s ! i) < at (procs s ! j)) \<or>
            (bt (procs s ! i) = bt (procs s ! j) \<and> at (procs s ! i) = at (procs s ! j) \<and>
               pid (procs s ! i) \<le> pid (procs s ! j))"
    if "j < length (procs s)" "\<not> completed s ! j" "at (procs s ! j) \<le> time s" for j
  proof -
    have "preferred bt (procs s) i j"
      using sel(4) [of j] that by (simp add: np_ready_def)
    then show ?thesis using pids [OF that(1)] by (auto simp: preferred_def)
  qed
  then show ?thesis using loop blk rdy sel(1) by blast
qed

theorem SJF_dispatch_minimal_witness:
  "completedCount tie_state < int (length (procs tie_state)) \<and>
   select_min bt (np_ready (procs tie_state) (completed tie_state) (time tie_state))
     (procs tie_state) = Some 1 \<and>
   sorted_wrt (<) (map pid (procs tie_state)) \<and>
   blocks (np_exec 1 tie_state) = [P 2]"
proof -
  have a: "completedCount tie_state < int (length (procs tie_state))"
    by (simp add: tie_state_def np_init_def)
  have b: "select_min bt (np_ready (procs tie_state) (completed tie_state) (time tie_state))
     (procs tie_state) = Some 1"
    by code_simp
  have c: "sorted_wrt (<) (map pid (procs tie_state))"
    by (simp add: tie_state_def np_init_def Process_def)
  have "blocks (np_exec 1 tie_state) = blocks tie_state @ [P (pid (procs tie_state ! 1))]"
    using SJF_dispatch_minimal [OF a b c] by simp
  then have "blocks (np_exec 1 tie_state) = [P 2]"
    by (simp add: tie_state_def np_init_def Process_def)
  then show ?thesis using a b c by simp
qed

section \<open>Arithmetic within the range of int\<close>

lemma wrap_id: "- 2147483648 \<le> x \<Longrightarrow> x \<le> INT_MAX \<Longrightarrow> wrap x = x"
  by (simp add: wrap_def INT_MAX_def)

lemma finish_exact:
  assumes "0 \<le> at p" "0 \<le> bt p" "at p + bt p \<le> t" "t \<le> INT_MAX"
  shows "finish t p = completed_at t p"
proof -
  have "wrap (t - at p) = t - at p" using assms by (intro wrap_id) (simp_all add: INT_MAX_def)
  moreover have "wrap (t - at p - bt p) = t - at p - bt p"
    using assms by (intro wrap_id) (simp_all add: INT_MAX_def)
  ultimately show ?thesis by (simp add: finish_def completed_at_def)
qed

lemma map_pid_update:
  assumes "pid x = pid (xs ! i)"
  shows "map pid (xs[i := x]) = map pid xs"
proof (cases "i < length xs")
  case True
  then have "(map pid xs)[i := pid x] = (map pid xs)[i := map pid xs ! i]" using assms by simp
  then show ?thesis by (simp add: map_update)
next
  case False
  then have "xs[i := x] = xs" by (simp add: list_update_beyond)
  then show ?thesis by simp
qed

lemma sum_list_nonneg_nth:
  "\<forall>x \<in> set xs. 0 \<le> f x \<Longrightarrow> i < length xs \<Longrightarrow> f (xs ! i) \<le> sum_list (map f xs)"
  for f :: "'a \<Rightarrow> int"
proof (induction xs arbitrary: i)
  case Nil
  then show ?case by simp
next
  case (Cons y xs)
  have "0 \<le> sum_list (map f xs)" using Cons.prems(1) by (auto intro!: sum_list_nonneg)
  show ?case
  proof (cases i)
    case 0
    then show ?thesis using \<open>0 \<le> sum_list (map f xs)\<close> by simp
  next
    case (Suc n)
    then have "f (xs ! n) \<le> sum_list (map f xs)" using Cons by simp
    moreover have "0 \<le> f y" using Cons.prems(1) by simp
    ultimately show ?thesis using Suc by simp
  qed
qed

lemma sum_list_mset_cong:
  "mset qs = mset ps \<Longrightarrow> sum_list (map f qs) = sum_list (map f ps)" for f :: "'a \<Rightarrow> int"
proof -
  assume "mset qs = mset ps"
  then have "sum_mset (image_mset f (mset qs)) = sum_mset (image_mset f (mset ps))" by simp
  then show ?thesis by (metis mset_map sum_mset_sum_list)
qed

lemma work_from_nonneg: "\<forall>p \<in> set ps. 0 \<le> bt p \<Longrightarrow> 0 \<le> work_from a ps"
  unfolding work_from_def by (rule sum_list_nonneg) auto

lemma work_from_nth:
  assumes "\<forall>p \<in> set ps. 0 \<le> bt p" "i < length ps"
  shows "bt (ps ! i) \<le> work_from (at (ps ! i)) ps"
  using sum_list_nonneg_nth [of ps "\<lambda>p. if at (ps ! i) \<le> at p then bt p else 0" i] assms
  by (simp add: work_from_def)

lemma work_from_all: "\<forall>p \<in> set ps. a \<le> at p \<Longrightarrow> work_from a ps = sum_list (map bt ps)"
  unfolding work_from_def by (induction ps) simp_all

lemma work_from_append: "work_from a (xs @ ys) = work_from a xs + work_from a ys"
  by (simp add: work_from_def)

text \<open>In a vector sorted by arrival, the processes from index \<open>k\<close> on arrive no earlier than the \<open>k\<close>-th.\<close>

lemma work_from_drop:
  assumes "sorted (map at qs)" "k < length qs" "\<forall>p \<in> set qs. 0 \<le> bt p"
  shows "sum_list (map bt (drop k qs)) \<le> work_from (at (qs ! k)) qs"
proof -
  have "work_from (at (qs ! k)) qs =
      work_from (at (qs ! k)) (take k qs) + work_from (at (qs ! k)) (drop k qs)"
    using work_from_append [of "at (qs ! k)" "take k qs" "drop k qs"] by simp
  moreover have "0 \<le> work_from (at (qs ! k)) (take k qs)"
    using assms(3) by (intro work_from_nonneg) (auto dest!: in_set_takeD)
  moreover have "work_from (at (qs ! k)) (drop k qs) = sum_list (map bt (drop k qs))"
  proof (rule work_from_all, rule ballI)
    fix p assume "p \<in> set (drop k qs)"
    then obtain j where j: "j < length qs - k" "p = qs ! (k + j)"
      by (auto simp: in_set_conv_nth)
    then have "map at qs ! k \<le> map at qs ! (k + j)"
      using assms(1) by (intro sorted_nth_mono) simp_all
    then show "at (qs ! k) \<le> at p" using j assms(2) by simp
  qed
  ultimately show ?thesis by simp
qed

lemma bounded_nth:
  assumes "bounded B ps" "i < length ps"
  shows "0 \<le> at (ps ! i)" "0 < bt (ps ! i)" "at (ps ! i) + work_from (at (ps ! i)) ps \<le> B"
    "at (ps ! i) < INT_MAX" "bt (ps ! i) \<le> INT_MAX"
proof -
  have p: "ps ! i \<in> set ps" using assms(2) by simp
  show a: "0 \<le> at (ps ! i)" and b: "0 < bt (ps ! i)"
    and c: "at (ps ! i) + work_from (at (ps ! i)) ps \<le> B"
    using assms(1) p by (auto simp: bounded_def)
  have nn: "\<forall>q \<in> set ps. 0 \<le> bt q" using assms(1) by (fastforce simp: bounded_def)
  have "bt (ps ! i) \<le> work_from (at (ps ! i)) ps" using work_from_nth [OF nn assms(2)] .
  moreover have "B \<le> INT_MAX" using assms(1) by (simp add: bounded_def)
  ultimately show "at (ps ! i) < INT_MAX" "bt (ps ! i) \<le> INT_MAX" using a b c by simp_all
qed

lemma bounded_mset:
  assumes "bounded B ps" "mset qs = mset ps"
  shows "bounded B qs"
proof -
  have st: "set qs = set ps" using assms(2) by (metis mset_eq_setD)
  have "sum_list (map bt qs) = sum_list (map bt ps)"
    using assms(2) by (rule sum_list_mset_cong)
  moreover have "work_from a qs = work_from a ps" for a
    unfolding work_from_def using assms(2) by (rule sum_list_mset_cong)
  ultimately show ?thesis using assms(1) st by (simp add: bounded_def)
qed

lemma bounded_makespan:
  assumes "valid_input ps" "makespan ps \<le> INT_MAX"
  shows "bounded (makespan ps) ps"
proof -
  let ?xs = "sum_list (map bt ps) # map (\<lambda>p. at p + work_from (at p) ps) ps"
  have a: "sum_list (map bt ps) \<le> makespan ps"
    unfolding makespan_def by (intro Max_ge) simp_all
  have b: "at p + work_from (at p) ps \<le> makespan ps" if "p \<in> set ps" for p
    unfolding makespan_def using that by (intro Max_ge) auto
  show ?thesis unfolding bounded_def using assms a b by (auto simp: valid_input_def)
qed

section \<open>The loop of FCFS\<close>

lemma segments_snoc:
  assumes "length tml = Suc (length bl)"
  shows "segments (bl @ [l]) (tml @ [t]) = segments bl tml @ [(l, last tml, t)]"
  using assms
proof (induction bl arbitrary: tml)
  case Nil
  then obtain a where "tml = [a]" by (cases tml) auto
  then show ?case by (simp add: segments_def)
next
  case (Cons b bl)
  then obtain a tml' where t: "tml = a # tml'" and l: "length tml' = Suc (length bl)"
    by (cases tml) auto
  then obtain a' tml'' where t': "tml' = a' # tml''" by (cases tml') auto
  have "segments (bl @ [l]) (tml' @ [t]) = segments bl tml' @ [(l, last tml', t)]"
    using Cons.IH [OF l] .
  then show ?case using t t' by (simp add: segments_def)
qed

text \<open>The labels of the chart do not depend on the clock.\<close>

lemma fcfs_labels_init: "fcfs_labels qs 0 (FCFS_init qs)"
  by (simp add: fcfs_labels_def FCFS_init_def segments_def runs_def)

lemma fcfs_labels_step:
  assumes "fcfs_labels qs k s" "k < length qs"
  shows "fcfs_labels qs (Suc k) (FCFS_body s k)"
proof -
  let ?p = "qs ! k"
  have pk: "procs s ! k = ?p" and len: "length (timeline s) = Suc (length (blocks s))"
    and lp: "length (procs s) = length qs" and pids: "map pid (procs s) = map pid qs"
    and seg: "map fst (runs (segments (blocks s) (timeline s))) = map (\<lambda>p. P (pid p)) (take k qs)"
    and rest: "\<forall>i. k \<le> i \<and> i < length qs \<longrightarrow> procs s ! i = qs ! i"
    using assms by (simp_all add: fcfs_labels_def)
  have tk: "take (Suc k) qs = take k qs @ [?p]"
    using assms(2) by (simp add: take_Suc_conv_app_nth)
  define s1 where "s1 = (if at ?p > time s
      then s\<lparr>blocks := blocks s @ [IDLE], time := at ?p, timeline := timeline s @ [at ?p]\<rparr>
      else s)"
  define t where "t = wrap (time s1 + bt ?p)"
  have b: "FCFS_body s k =
      s1\<lparr>blocks := blocks s1 @ [P (pid ?p)], time := t, timeline := timeline s1 @ [t],
         procs := (procs s1)[k := finish t ?p]\<rparr>"
    using pk by (simp add: FCFS_body_def Let_def s1_def t_def)
  have l1: "length (timeline s1) = Suc (length (blocks s1))" using len by (simp add: s1_def)
  have p1: "procs s1 = procs s" by (simp add: s1_def)
  have r1: "map fst (runs (segments (blocks s1) (timeline s1))) =
      map fst (runs (segments (blocks s) (timeline s)))"
    using segments_snoc [OF len] by (simp add: s1_def runs_def)
  have "segments (blocks s1 @ [P (pid ?p)]) (timeline s1 @ [t]) =
      segments (blocks s1) (timeline s1) @ [(P (pid ?p), last (timeline s1), t)]"
    using segments_snoc [OF l1] .
  then have r2: "map fst (runs (segments (blocks s1 @ [P (pid ?p)]) (timeline s1 @ [t]))) =
      map fst (runs (segments (blocks s1) (timeline s1))) @ [P (pid ?p)]"
    by (simp add: runs_def)
  have pd: "map pid ((procs s)[k := finish t ?p]) = map pid qs"
    using map_pid_update [of "finish t ?p" "procs s" k] pk pids by (simp add: finish_def)
  show ?thesis
    unfolding fcfs_labels_def b using l1 p1 r1 r2 seg tk pd lp rest by simp
qed

lemma fcfs_labels_loop: "fcfs_labels qs (length qs) (FCFS_loop qs)"
proof -
  have "k \<le> length qs \<Longrightarrow> fcfs_labels qs k (foldl FCFS_body (FCFS_init qs) [0..<k])" for k
  proof (induction k)
    case 0
    show ?case by (simp add: fcfs_labels_init)
  next
    case (Suc k)
    then show ?case by (simp add: fcfs_labels_step)
  qed
  then show ?thesis by (simp add: FCFS_loop_def)
qed

text \<open>While the clock stays in the range of \<open>int\<close>, every segment is as long as the burst.\<close>

lemma fcfs_inv_init: "bounded B qs \<Longrightarrow> fcfs_inv B qs 0 (FCFS_init qs)"
  by (simp add: fcfs_inv_def FCFS_init_def segments_def runs_def bounded_def)

lemma fcfs_inv_step:
  assumes "fcfs_inv B qs k s" "k < length qs" "bounded B qs" "sorted (map at qs)"
  shows "fcfs_inv B qs (Suc k) (FCFS_body s k)"
proof -
  let ?p = "qs ! k"
  note bp = bounded_nth [OF assms(3,2)]
  have pk: "procs s ! k = ?p" and len: "length (timeline s) = Suc (length (blocks s))"
    and la: "last (timeline s) = time s" and lp: "length (procs s) = length qs"
    and seg: "runs (segments (blocks s) (timeline s)) = map (\<lambda>p. (P (pid p), bt p)) (take k qs)"
    and t0: "0 \<le> time s" and tm: "time s + sum_list (map bt (drop k qs)) \<le> B"
    using assms(1,2) by (simp_all add: fcfs_inv_def)
  have B: "B \<le> INT_MAX" using assms(3) by (simp add: bounded_def)
  have tk: "take (Suc k) qs = take k qs @ [?p]"
    using assms(2) by (simp add: take_Suc_conv_app_nth)
  have dr: "drop k qs = ?p # drop (Suc k) qs" using assms(2) by (simp add: Cons_nth_drop_Suc)
  have pos: "\<forall>p \<in> set qs. 0 \<le> bt p" using assms(3) by (fastforce simp: bounded_def)
  have nn: "0 \<le> sum_list (map bt (drop j qs))" for j
    using pos by (auto intro!: sum_list_nonneg dest!: in_set_dropD)
  have "at ?p + sum_list (map bt (drop k qs)) \<le> B"
    using bp(3) work_from_drop [OF assms(4,2) pos] by simp
  define t where "t = max (time s) (at ?p) + bt ?p"
  have t1: "t + sum_list (map bt (drop (Suc k) qs)) \<le> B"
    using tm dr \<open>at ?p + sum_list (map bt (drop k qs)) \<le> B\<close> by (simp add: t_def max_def)
  have tB: "t \<le> B" using t1 nn [of "Suc k"] by simp
  have tr: "0 \<le> t" "at ?p + bt ?p \<le> t" "t \<le> INT_MAX"
    using t0 bp(1,2) tB B by (simp_all add: t_def)
  have w: "wrap t = t" using tr by (intro wrap_id) simp_all
  have f: "finish t ?p = completed_at t ?p"
    using finish_exact [of ?p t] bp(1,2) tr by simp
  show ?thesis
  proof (cases "at ?p > time s")
    case True
    then have te: "t = at ?p + bt ?p" by (simp add: t_def)
    have b: "FCFS_body s k =
        s\<lparr>blocks := blocks s @ [IDLE] @ [P (pid ?p)], time := t,
          timeline := timeline s @ [at ?p] @ [t],
          procs := (procs s)[k := completed_at t ?p]\<rparr>"
      using True pk w f by (simp add: FCFS_body_def Let_def te)
    have s1: "segments (blocks s @ [IDLE]) (timeline s @ [at ?p]) =
        segments (blocks s) (timeline s) @ [(IDLE, time s, at ?p)]"
      using segments_snoc [OF len] la by simp
    have s2: "segments ((blocks s @ [IDLE]) @ [P (pid ?p)]) ((timeline s @ [at ?p]) @ [t])
        = segments (blocks s) (timeline s) @ [(IDLE, time s, at ?p), (P (pid ?p), at ?p, t)]"
      using segments_snoc [of "timeline s @ [at ?p]" "blocks s @ [IDLE]"] len s1 by simp
    show ?thesis unfolding fcfs_inv_def b using assms(1,2) s2 seg tk lp tr tB t1 te
      by (auto simp: fcfs_inv_def runs_def nth_list_update less_Suc_eq)
  next
    case False
    then have te: "t = time s + bt ?p" by (simp add: t_def)
    have b: "FCFS_body s k =
        s\<lparr>blocks := blocks s @ [P (pid ?p)], time := t, timeline := timeline s @ [t],
          procs := (procs s)[k := completed_at t ?p]\<rparr>"
      using False pk w f by (simp add: FCFS_body_def Let_def te)
    have s2: "segments (blocks s @ [P (pid ?p)]) (timeline s @ [t])
        = segments (blocks s) (timeline s) @ [(P (pid ?p), time s, t)]"
      using segments_snoc [OF len] la by simp
    show ?thesis unfolding fcfs_inv_def b using assms(1,2) s2 seg tk lp tr tB t1 te
      by (auto simp: fcfs_inv_def runs_def nth_list_update less_Suc_eq)
  qed
qed

lemma fcfs_inv_loop:
  assumes "bounded B qs" "sorted (map at qs)"
  shows "fcfs_inv B qs (length qs) (FCFS_loop qs)"
proof -
  have "k \<le> length qs \<Longrightarrow> fcfs_inv B qs k (foldl FCFS_body (FCFS_init qs) [0..<k])" for k
  proof (induction k)
    case 0
    show ?case using assms by (simp add: fcfs_inv_init)
  next
    case (Suc k)
    then show ?case using assms by (simp add: fcfs_inv_step)
  qed
  then show ?thesis by (simp add: FCFS_loop_def)
qed

lemma gantt_FCFS_labels:
  "map fst (runs (gantt (FCFS srt ps))) = map (\<lambda>p. P (pid p)) (srt at ps)"
  using fcfs_labels_loop [of "srt at ps"]
  by (simp add: FCFS_def Let_def gantt_def printResults_def fcfs_labels_def)

lemma gantt_FCFS:
  assumes "bounded B (srt at ps)" "sorted (map at (srt at ps))"
  shows "runs (gantt (FCFS srt ps)) = map (\<lambda>p. (P (pid p), bt p)) (srt at ps)"
  using fcfs_inv_loop [OF assms]
  by (simp add: FCFS_def Let_def gantt_def printResults_def fcfs_inv_def)

lemma std_sort_distinct_keys:
  assumes "std_sort srt" "distinct (map key ps)"
  shows "srt key ps = sort_key key (sort_key pid ps)"
proof (rule sorted_distinct_key_unique)
  show "mset (srt key ps) = mset (sort_key key (sort_key pid ps))"
    using assms(1) by (simp add: std_sort_def)
  show "sorted (map key (srt key ps))"
    using assms(1) by (simp add: std_sort_def)
  show "sorted (map key (sort_key key (sort_key pid ps)))" by simp
  have "mset (map key (sort_key key (sort_key pid ps))) = mset (map key ps)" by simp
  then show "distinct (map key (sort_key key (sort_key pid ps)))"
    using assms(2) by (metis mset_eq_imp_distinct_iff)
qed

lemma S5_valid: "valid_input S5" "makespan S5 \<le> INT_MAX" "below_INT_MAX S5"
  by (simp_all add: valid_input_def below_INT_MAX_def makespan_def work_from_def S5_def
      Process_def INT_MAX_def)

text \<open>
  Claim C5, as amended: whatever conforming \<open>std::sort\<close> is used, the non-idle blocks of
  the chart of FCFS are the processes of the sorted vector in its order, one block
  each (so each runs to completion, unpreempted); the sorted vector is a rearrangement
  of the input with arrival times non-decreasing; when the arrival times are distinct
  it is the input sorted by arrival and pid; and on a valid input whose makespan is at
  most \<open>INT_MAX\<close>, every such block is as long as the burst. For equal arrival times the
  order is the one \<open>std::sort\<close> leaves.
\<close>

theorem FCFS_runs_by_arrival:
  assumes "std_sort srt"
  shows "map fst (runs (gantt (FCFS srt ps))) = map (\<lambda>p. P (pid p)) (srt at ps) \<and>
         sorted (map at (srt at ps)) \<and> mset (srt at ps) = mset ps \<and>
         (distinct (map at ps) \<longrightarrow> srt at ps = spec_fcfs_order ps) \<and>
         (valid_input ps \<and> makespan ps \<le> INT_MAX \<longrightarrow>
            runs (gantt (FCFS srt ps)) = map (\<lambda>p. (P (pid p), bt p)) (srt at ps))"
proof -
  have m: "mset (srt at ps) = mset ps" and s: "sorted (map at (srt at ps))"
    using assms by (simp_all add: std_sort_def)
  have "runs (gantt (FCFS srt ps)) = map (\<lambda>p. (P (pid p), bt p)) (srt at ps)"
    if "valid_input ps" "makespan ps \<le> INT_MAX"
    using gantt_FCFS [of "makespan ps" srt ps] bounded_mset [OF bounded_makespan [OF that] m] s
    by simp
  then show ?thesis
    using m s std_sort_distinct_keys [OF assms, of at ps]
    by (simp add: gantt_FCFS_labels spec_fcfs_order_def)
qed

theorem FCFS_runs_by_arrival_witness:
  "std_sort sort_key \<and> distinct (map at S5) \<and> valid_input S5 \<and> makespan S5 \<le> INT_MAX \<and>
   runs (gantt (FCFS sort_key S5)) = [(P 1, 5), (P 2, 3), (P 3, 2)]"
proof -
  have d: "distinct (map at S5)" by (simp add: S5_def Process_def)
  have "spec_fcfs_order S5 = S5" by code_simp
  then have "sort_key at S5 = S5"
    using FCFS_runs_by_arrival [OF std_sort_sort_key, of S5] d by simp
  then have "runs (gantt (FCFS sort_key S5)) = map (\<lambda>p. (P (pid p), bt p)) S5"
    using FCFS_runs_by_arrival [OF std_sort_sort_key, of S5] S5_valid(1,2) by simp
  then show ?thesis using d std_sort_sort_key S5_valid(1,2) by (simp add: S5_def Process_def)
qed

text \<open>
  Claim C5 as stated, with ties broken by pid: seventeen processes that arrive together
  are one more than the 16 up to which \<open>std::sort\<close> only runs its insertion sort. The
  partition step moves the median, P9, to the front and then swaps the equal elements
  from both ends, and FCFS runs them in the order P9, P17 .. P10, P1, P8 .. P2. The
  specification's order starts with P1.
\<close>

theorem FCFS_ties_not_by_pid:
  "valid_input arrivals_17 \<and>
   map fst (runs (gantt (FCFS gnu_sort arrivals_17))) =
     map P [9, 17, 16, 15, 14, 13, 12, 11, 10, 1, 8, 7, 6, 5, 4, 3, 2] \<and>
   map (\<lambda>p. P (pid p)) (spec_fcfs_order arrivals_17) =
     map P [1, 2, 3, 4, 5, 6, 7, 8, 9, 10, 11, 12, 13, 14, 15, 16, 17]"
proof -
  have v: "valid_input arrivals_17" by code_simp
  have a: "map (\<lambda>p. P (pid p)) (gnu_sort at arrivals_17) =
      map P [9, 17, 16, 15, 14, 13, 12, 11, 10, 1, 8, 7, 6, 5, 4, 3, 2]"
    by code_simp
  have c: "map (\<lambda>p. P (pid p)) (spec_fcfs_order arrivals_17) =
      map P [1, 2, 3, 4, 5, 6, 7, 8, 9, 10, 11, 12, 13, 14, 15, 16, 17]"
    by code_simp
  show ?thesis using v by (simp add: gantt_FCFS_labels a c)
qed

section \<open>Counting and summing over a vector\<close>

lemma ball_nth: "\<forall>p \<in> set ps. Q p \<Longrightarrow> i < length ps \<Longrightarrow> Q (ps ! i)"
  by simp

lemma filter_count_update_new:
  "i < length xs \<Longrightarrow> \<not> Q (xs ! i) \<Longrightarrow> Q x \<Longrightarrow>
     length (filter Q (xs[i := x])) = Suc (length (filter Q xs))"
proof (induction xs arbitrary: i)
  case Nil
  then show ?case by simp
next
  case (Cons y xs)
  then show ?case by (cases i) auto
qed

lemma filter_count_update_same:
  "i < length xs \<Longrightarrow> Q (xs ! i) = Q x \<Longrightarrow>
     length (filter Q (xs[i := x])) = length (filter Q xs)"
proof (induction xs arbitrary: i)
  case Nil
  then show ?case by simp
next
  case (Cons y xs)
  then show ?case by (cases i) auto
qed






lemma sum_list_map_update:
  "i < length xs \<Longrightarrow> sum_list (map f (xs[i := x])) = sum_list (map f xs) - f (xs ! i) + f x"
  for f :: "'a \<Rightarrow> int"
proof (induction xs arbitrary: i)
  case Nil
  then show ?case by simp
next
  case (Cons y xs)
  then show ?case by (cases i) auto
qed

section \<open>A completed row\<close>

lemma finished_metrics:
  "finished p0 p \<Longrightarrow> pid p = pid p0 \<and> at p = at p0 \<and> bt p = bt p0"
  by (auto simp: finished_def completed_at_def)



section \<open>The loop of SJF and PriorityScheduling\<close>



















section \<open>The rows of SRTF and Round Robin\<close>

lemma rows_inv_nth:
  assumes "rows_inv ps now qs" "i < length ps"
  shows "pid (qs ! i) = pid (ps ! i)" "at (qs ! i) = at (ps ! i)" "bt (qs ! i) = bt (ps ! i)"
    "0 \<le> rem_bt (qs ! i)" "rem_bt (qs ! i) \<le> bt (ps ! i) \<or> rem_bt (qs ! i) = 0"
    "rem_bt (qs ! i) = 0 \<Longrightarrow> finished (ps ! i) (qs ! i)"
    "rem_bt (qs ! i) \<noteq> 0 \<Longrightarrow> running (ps ! i) now (qs ! i)"
  using assms finished_metrics [of "ps ! i" "qs ! i"]
  by (auto simp: rows_inv_def running_def split: if_splits)

lemma rows_inv_rem_nonneg:
  assumes "rows_inv ps now qs"
  shows "\<forall>p \<in> set qs. 0 \<le> rem_bt p"
  using rows_inv_nth(4) [OF assms] assms by (auto simp: in_set_conv_nth rows_inv_def)

text \<open>A row that has arrived completes, once its remaining burst has run, not before arrival plus burst.\<close>

lemma rows_inv_done:
  assumes inv: "rows_inv ps now qs" and idx: "idx < length ps"
    and rdy: "at (qs ! idx) \<le> now" "0 < rem_bt (qs ! idx)"
  shows "at (ps ! idx) + bt (ps ! idx) \<le> now + rem_bt (qs ! idx)"
proof -
  obtain r where r: "qs ! idx = (ps ! idx)\<lparr>rem_bt := r\<rparr>" "0 < r" "r \<le> bt (ps ! idx)"
    "r < bt (ps ! idx) \<longrightarrow> at (ps ! idx) + (bt (ps ! idx) - r) \<le> now"
    using rows_inv_nth(7) [OF inv idx] rdy(2) by (auto simp: running_def)
  have a: "at (ps ! idx) \<le> now" using rdy(1) r(1) by simp
  show ?thesis using r a by (cases "r < bt (ps ! idx)") auto
qed

lemma rows_inv_run:
  assumes inv: "rows_inv ps now qs" and idx: "idx < length ps"
    and rdy: "at (qs ! idx) \<le> now" "0 < rem_bt (qs ! idx)"
    and e: "0 < e" "e \<le> rem_bt (qs ! idx)"
    and new: "new = (if rem_bt (qs ! idx) - e = 0
                     then completed_at (now + e) ((qs ! idx)\<lparr>rem_bt := rem_bt (qs ! idx) - e\<rparr>)
                     else (qs ! idx)\<lparr>rem_bt := rem_bt (qs ! idx) - e\<rparr>)"
  shows "rows_inv ps (now + e) (qs[idx := new])"
proof -
  have len: "length qs = length ps" using inv by (simp add: rows_inv_def)
  obtain r where r: "qs ! idx = (ps ! idx)\<lparr>rem_bt := r\<rparr>" "0 < r" "r \<le> bt (ps ! idx)"
    "r < bt (ps ! idx) \<longrightarrow> at (ps ! idx) + (bt (ps ! idx) - r) \<le> now"
    using rows_inv_nth(7) [OF inv idx] rdy(2) by (auto simp: running_def)
  have a: "at (ps ! idx) \<le> now" using rdy(1) r(1) by simp
  have row: "if rem_bt new = 0 then finished (ps ! idx) new else running (ps ! idx) (now + e) new"
  proof (cases "r - e = 0")
    case True
    then have "new = (completed_at (now + e) (ps ! idx))\<lparr>rem_bt := 0\<rparr>"
      using new r(1) by (simp add: completed_at_def)
    moreover have "at (ps ! idx) + bt (ps ! idx) \<le> now + e"
      using True r a by (cases "r < bt (ps ! idx)") auto
    ultimately show ?thesis unfolding finished_def by auto
  next
    case False
    then have n: "new = (ps ! idx)\<lparr>rem_bt := r - e\<rparr>" using new r(1) by simp
    have "0 < r - e" using False e r(1) by simp
    moreover have "at (ps ! idx) + (bt (ps ! idx) - (r - e)) \<le> now + e"
      using r a by (cases "r < bt (ps ! idx)") auto
    ultimately show ?thesis using n r(3) e(1) unfolding running_def by auto
  qed
  have other: "if rem_bt (qs ! i) = 0 then finished (ps ! i) (qs ! i)
               else running (ps ! i) (now + e) (qs ! i)" if "i < length ps" for i
    using inv that e(1) by (fastforce simp: rows_inv_def running_def)
  show ?thesis unfolding rows_inv_def using len row other idx
    by (auto simp: nth_list_update)
qed

lemma rows_run_sum:
  assumes "idx < length qs"
    and "new = (if rem_bt (qs ! idx) - e = 0
                     then completed_at (now + e) ((qs ! idx)\<lparr>rem_bt := rem_bt (qs ! idx) - e\<rparr>)
                     else (qs ! idx)\<lparr>rem_bt := rem_bt (qs ! idx) - e\<rparr>)"
  shows "sum_list (map rem_bt (qs[idx := new])) = sum_list (map rem_bt qs) - e"
  using assms by (simp add: sum_list_map_update completed_at_def)

lemma rows_run_count:
  assumes "idx < length qs" "0 < rem_bt (qs ! idx)"
    and "new = (if rem_bt (qs ! idx) - e = 0
                     then completed_at (now + e) ((qs ! idx)\<lparr>rem_bt := rem_bt (qs ! idx) - e\<rparr>)
                     else (qs ! idx)\<lparr>rem_bt := rem_bt (qs ! idx) - e\<rparr>)"
  shows "int (length (filter (\<lambda>p. rem_bt p = 0) (qs[idx := new]))) =
         int (length (filter (\<lambda>p. rem_bt p = 0) qs)) + (if rem_bt (qs ! idx) - e = 0 then 1 else 0)"
proof (cases "rem_bt (qs ! idx) - e = 0")
  case True
  then have "rem_bt new = 0" using assms(3) by (simp add: completed_at_def)
  then show ?thesis
    using filter_count_update_new [of idx qs "\<lambda>p. rem_bt p = 0" new] assms(1,2) True by simp
next
  case False
  then have "rem_bt new \<noteq> 0" using assms(3) by simp
  then show ?thesis
    using filter_count_update_same [of idx qs "\<lambda>p. rem_bt p = 0" new] assms(1,2) False by simp
qed

text \<open>An idle jump keeps the rows when no process that is ready has run yet.\<close>

lemma rows_inv_idle:
  assumes "rows_inv ps now qs"
    and "\<forall>i < length ps. at (qs ! i) \<le> now \<and> 0 < rem_bt (qs ! i) \<longrightarrow>
           \<not> rem_bt (qs ! i) < bt (ps ! i)"
  shows "rows_inv ps m qs"
proof -
  have "running (ps ! i) m (qs ! i)" if i: "i < length ps" and r: "rem_bt (qs ! i) \<noteq> 0" for i
  proof -
    obtain r where r: "qs ! i = (ps ! i)\<lparr>rem_bt := r\<rparr>" "0 < r" "r \<le> bt (ps ! i)"
      "r < bt (ps ! i) \<longrightarrow> at (ps ! i) + (bt (ps ! i) - r) \<le> now"
      using rows_inv_nth(7) [OF assms(1) i r] by (auto simp: running_def)
    have "\<not> r < bt (ps ! i)"
    proof
      assume l: "r < bt (ps ! i)"
      then have "at (qs ! i) \<le> now" "0 < rem_bt (qs ! i)" "rem_bt (qs ! i) < bt (ps ! i)"
        using r by simp_all
      then show False using assms(2) i by blast
    qed
    then show ?thesis using r unfolding running_def by auto
  qed
  then show ?thesis using assms(1) by (auto simp: rows_inv_def)
qed


lemma rows_inv_init:
  assumes "\<forall>p \<in> set ps. 0 < bt p"
  shows "rows_inv ps 0 (map (\<lambda>p. p\<lparr>rem_bt := bt p\<rparr>) ps)"
proof -
  have "0 < bt (ps ! i)" if "i < length ps" for i
    using assms nth_mem [OF that] by simp
  then show ?thesis by (fastforce simp: rows_inv_def running_def)
qed


section \<open>The clock of SRTF and Round Robin\<close>

lemma left_from_update:
  "idx < length qs \<Longrightarrow> at new = at (qs ! idx) \<Longrightarrow> rem_bt new \<le> rem_bt (qs ! idx) \<Longrightarrow>
     left_from a (qs[idx := new]) \<le> left_from a qs"
proof (induction qs arbitrary: idx)
  case Nil
  then show ?case by simp
next
  case (Cons q qs)
  show ?case
  proof (cases idx)
    case 0
    then show ?thesis using Cons.prems by (simp add: left_from_def)
  next
    case (Suc n)
    then have "left_from a (qs[n := new]) \<le> left_from a qs" using Cons by simp
    then show ?thesis using Suc by (simp add: left_from_def)
  qed
qed

text \<open>When no row with work left arrives before \<open>a\<close>, the work left from \<open>a\<close> on is all of it.\<close>

lemma left_from_all:
  "\<forall>q \<in> set qs. 0 \<le> rem_bt q \<and> (0 < rem_bt q \<longrightarrow> a \<le> at q) \<Longrightarrow>
     left_from a qs = sum_list (map rem_bt qs)"
  unfolding left_from_def by (induction qs) auto

lemma left_from_init: "left_from a (map (\<lambda>p. p\<lparr>rem_bt := bt p\<rparr>) ps) = work_from a ps"
  unfolding left_from_def work_from_def by (induction ps) simp_all

lemma within_run:
  assumes inv: "rows_inv ps now qs" and w: "within B ps now qs" and idx: "idx < length ps"
    and rdy: "0 < rem_bt (qs ! idx)"
    and e: "0 < e" "e \<le> rem_bt (qs ! idx)"
    and new: "new = (if rem_bt (qs ! idx) - e = 0
                     then completed_at (now + e) ((qs ! idx)\<lparr>rem_bt := rem_bt (qs ! idx) - e\<rparr>)
                     else (qs ! idx)\<lparr>rem_bt := rem_bt (qs ! idx) - e\<rparr>)"
  shows "within B ps (now + e) (qs[idx := new])"
proof -
  have len: "length qs = length ps" using inv by (simp add: rows_inv_def)
  have sum: "sum_list (map rem_bt (qs[idx := new])) = sum_list (map rem_bt qs) - e"
    using rows_run_sum [of idx qs new e now] idx len new by simp
  have "rem_bt (qs ! idx) \<le> sum_list (map rem_bt qs)"
    using sum_list_nonneg_nth [OF rows_inv_rem_nonneg [OF inv]] idx len by simp
  then have nonneg: "0 \<le> sum_list (map rem_bt qs) - e" using e(2) by simp
  have a: "now + e + (sum_list (map rem_bt qs) - e) \<le> B" using w by (simp add: within_def)
  have atn: "at new = at (qs ! idx)" "rem_bt new \<le> rem_bt (qs ! idx)"
    using new e(1) by (simp_all add: completed_at_def)
  have b: "\<forall>i < length ps. at (ps ! i) + left_from (at (ps ! i)) (qs[idx := new]) \<le> B"
  proof (intro allI impI)
    fix i assume "i < length ps"
    then have "at (ps ! i) + left_from (at (ps ! i)) qs \<le> B" using w by (simp add: within_def)
    then show "at (ps ! i) + left_from (at (ps ! i)) (qs[idx := new]) \<le> B"
      using left_from_update [of idx qs new "at (ps ! i)"] idx len atn by simp
  qed
  have c: "ct ((qs[idx := new]) ! i) \<le> B"
    if i: "i < length ps" and r: "rem_bt ((qs[idx := new]) ! i) = 0" for i
  proof (cases "i = idx")
    case False
    then show ?thesis using w i r by (simp add: within_def)
  next
    case True
    then have n: "(qs[idx := new]) ! i = new" using idx len by simp
    then have "rem_bt (qs ! idx) - e = 0" using r new by (auto split: if_splits)
    then have "ct new = now + e" using new by (simp add: completed_at_def)
    then show ?thesis using n a nonneg by simp
  qed
  have "0 \<le> now + e" using w e(1) by (simp add: within_def)
  then show ?thesis unfolding within_def sum using a b c by blast
qed

text \<open>What running a row for \<open>e\<close> units needs of the range of \<open>int\<close>.\<close>

lemma within_range:
  assumes inv: "rows_inv ps now qs" and w: "within B ps now qs" and B: "B \<le> INT_MAX"
    and idx: "idx < length ps" and e: "0 \<le> e" "e \<le> rem_bt (qs ! idx)"
  shows "0 \<le> now + e" "now + e \<le> INT_MAX" "rem_bt (qs ! idx) \<le> INT_MAX"
proof -
  have len: "length qs = length ps" using inv by (simp add: rows_inv_def)
  have le: "rem_bt (qs ! idx) \<le> sum_list (map rem_bt qs)"
    using sum_list_nonneg_nth [OF rows_inv_rem_nonneg [OF inv]] idx len by simp
  have n: "0 \<le> now" "now + sum_list (map rem_bt qs) \<le> B" using w by (simp_all add: within_def)
  show "0 \<le> now + e" using n(1) e(1) by simp
  show "now + e \<le> INT_MAX" using n(2) le e(2) B by simp
  show "rem_bt (qs ! idx) \<le> INT_MAX" using n le B by simp
qed

text \<open>The clock jumps to an arrival that no row with work left precedes.\<close>

lemma within_idle:
  assumes "within B ps now qs" "j < length ps" "0 \<le> at (ps ! j)"
    and "\<forall>q \<in> set qs. 0 \<le> rem_bt q \<and> (0 < rem_bt q \<longrightarrow> at (ps ! j) \<le> at q)"
  shows "within B ps (at (ps ! j)) qs"
proof -
  have "at (ps ! j) + left_from (at (ps ! j)) qs \<le> B"
    using assms(1,2) unfolding within_def by blast
  then have "at (ps ! j) + sum_list (map rem_bt qs) \<le> B"
    using left_from_all [OF assms(4)] by simp
  then show ?thesis using assms(1,3) by (simp add: within_def)
qed

lemma within_init:
  assumes "bounded B ps"
  shows "within B ps 0 (map (\<lambda>p. p\<lparr>rem_bt := bt p\<rparr>) ps)"
proof -
  have "rem_bt \<circ> (\<lambda>p. p\<lparr>rem_bt := bt p\<rparr>) = (bt :: process \<Rightarrow> int)" by auto
  moreover have "rem_bt (map (\<lambda>p. p\<lparr>rem_bt := bt p\<rparr>) ps ! i) \<noteq> 0" if "i < length ps" for i
    using bounded_nth(2) [OF assms that] that by simp
  ultimately show ?thesis using assms bounded_nth(3) [OF assms] unfolding within_def
    by (auto simp: bounded_def left_from_init)
qed


section \<open>The loop of SRTF\<close>

lemma SRTF_loop_rule:
  assumes ret: "SRTF_loop s = Some t" and init: "I s"
    and exec: "\<And>s idx. I s \<Longrightarrow> completedCount s < int (length (procs s)) \<Longrightarrow>
        select_min rem_bt (srtf_ready (procs s) (time s)) (procs s) = Some idx \<Longrightarrow>
        I (srtf_exec idx s)"
    and idle: "\<And>s m. I s \<Longrightarrow> completedCount s < int (length (procs s)) \<Longrightarrow>
        select_min rem_bt (srtf_ready (procs s) (time s)) (procs s) = None \<Longrightarrow>
        srtf_next_arrival (procs s) = (m, True) \<Longrightarrow> I (srtf_idle m s)"
  shows "I t \<and> (completedCount t < int (length (procs t)) \<longrightarrow>
           \<not> snd (srtf_next_arrival (procs t)))"
proof -
  let ?E = "\<lambda>t. I t \<and> (completedCount t < int (length (procs t)) \<longrightarrow>
           \<not> snd (srtf_next_arrival (procs t)))"
  have "I s \<longrightarrow> ?E t"
  proof (rule SRTF_loop.raw_induct [where P = "\<lambda>s t. I s \<longrightarrow> ?E t", OF _ ret])
    fix f :: "srtf_state \<Rightarrow> srtf_state option" and s t
    assume IH: "\<And>s t. f s = Some t \<Longrightarrow> I s \<longrightarrow> ?E t"
      and body: "(if completedCount s < int (length (procs s)) then
        (case select_min rem_bt (srtf_ready (procs s) (time s)) (procs s) of
           None \<Rightarrow>
             (case srtf_next_arrival (procs s) of
                (next_arrival_time, found_next) \<Rightarrow>
                  if found_next then f (srtf_idle next_arrival_time s) else Some s)
         | Some shortest_idx \<Rightarrow> f (srtf_exec shortest_idx s))
      else Some s) = Some t"
    show "I s \<longrightarrow> ?E t"
    proof
      assume I: "I s"
      show "?E t"
      proof (cases "completedCount s < int (length (procs s))")
        case False
        then show ?thesis using body I by auto
      next
        case True
        show ?thesis
        proof (cases "select_min rem_bt (srtf_ready (procs s) (time s)) (procs s)")
          case (Some idx)
          then have "f (srtf_exec idx s) = Some t" using body True by simp
          then show ?thesis using IH exec [OF I True Some] by blast
        next
          case None
          obtain m found where na: "srtf_next_arrival (procs s) = (m, found)"
            by (cases "srtf_next_arrival (procs s)")
          show ?thesis
          proof (cases found)
            case False
            then show ?thesis using body True None na I by auto
          next
            case found: True
            then have "f (srtf_idle m s) = Some t" using body True None na by simp
            moreover have "I (srtf_idle m s)" using idle [OF I True None] na found by simp
            ultimately show ?thesis using IH by blast
          qed
        qed
      qed
    qed
  qed
  then show ?thesis using init by simp
qed

text \<open>
  The next-arrival loop finds the arrival of a process with work left, or finds none
  when no process has work left.
\<close>

lemma srtf_next_arrival_spec:
  assumes "\<forall>p \<in> set qs. at p < INT_MAX"
  shows "case srtf_next_arrival qs of (m, found) \<Rightarrow>
           (\<not> found \<and> m = INT_MAX \<and> (\<forall>p \<in> set qs. \<not> rem_bt p > 0)) \<or>
           (found \<and> (\<exists>p \<in> set qs. rem_bt p > 0 \<and> at p = m))"
  unfolding srtf_next_arrival_def using assms
proof (induction qs rule: rev_induct)
  case Nil
  show ?case by simp
next
  case (snoc x xs)
  then show ?case by (auto simp: min_def split: prod.splits)
qed

text \<open>No row with work left arrives before it.\<close>

lemma srtf_next_arrival_le:
  "p \<in> set qs \<Longrightarrow> 0 < rem_bt p \<Longrightarrow> fst (srtf_next_arrival qs) \<le> at p"
  unfolding srtf_next_arrival_def
proof (induction qs rule: rev_induct)
  case Nil
  then show ?case by simp
next
  case (snoc x xs)
  then show ?case by (auto simp: min_def split: prod.splits)
qed

lemma open_block_frame [simp]:
  "procs (open_block l s) = procs s" "time (open_block l s) = time s"
  "completedCount (open_block l s) = completedCount s"
  by (simp_all add: open_block_def Let_def)

lemma srtf_idle_frame [simp]:
  "procs (srtf_idle m s) = procs s" "time (srtf_idle m s) = m"
  "completedCount (srtf_idle m s) = completedCount s"
  by (simp_all add: srtf_idle_def Let_def)

text \<open>One unit of execution, while the clock stays in the range of \<open>int\<close>.\<close>

lemma srtf_exec_exact:
  assumes rows: "rows_inv ps (time s) (procs s)" and w: "within B ps (time s) (procs s)"
    and bnd: "bounded B ps" and idx: "idx < length ps"
    and rdy: "srtf_ready (procs s) (time s) idx"
  shows "procs (srtf_exec idx s) =
     (procs s)[idx := (if rem_bt (procs s ! idx) - 1 = 0
                       then completed_at (time s + 1) ((procs s ! idx)\<lparr>rem_bt := rem_bt (procs s ! idx) - 1\<rparr>)
                       else (procs s ! idx)\<lparr>rem_bt := rem_bt (procs s ! idx) - 1\<rparr>)]"
    and "time (srtf_exec idx s) = time s + 1"
    and "completedCount (srtf_exec idx s) =
     completedCount s + (if rem_bt (procs s ! idx) - 1 = 0 then 1 else 0)"
proof -
  have B: "B \<le> INT_MAX" using bnd by (simp add: bounded_def)
  have rd: "at (procs s ! idx) \<le> time s" "0 < rem_bt (procs s ! idx)"
    using rdy by (simp_all add: srtf_ready_def)
  have "0 \<le> time s + 1" "time s + 1 \<le> INT_MAX"
    using within_range(1,2) [OF rows w B idx, of 1] rd(2) by simp_all
  then have wr: "wrap (time s + 1) = time s + 1" by (intro wrap_id) simp_all
  let ?p1 = "(procs s ! idx)\<lparr>rem_bt := rem_bt (procs s ! idx) - 1\<rparr>"
  have f: "finish (time s + 1) ?p1 = completed_at (time s + 1) ?p1"
    if "rem_bt (procs s ! idx) - 1 = 0"
  proof (rule finish_exact)
    show "0 \<le> at ?p1" "0 \<le> bt ?p1"
      using rows_inv_nth(2,3) [OF rows idx] bounded_nth(1,2) [OF bnd idx] by simp_all
    show "at ?p1 + bt ?p1 \<le> time s + 1"
      using rows_inv_done [OF rows idx rd] rows_inv_nth(2,3) [OF rows idx] that by simp
    show "time s + 1 \<le> INT_MAX" by fact
  qed
  show "procs (srtf_exec idx s) =
     (procs s)[idx := (if rem_bt (procs s ! idx) - 1 = 0
                       then completed_at (time s + 1) ((procs s ! idx)\<lparr>rem_bt := rem_bt (procs s ! idx) - 1\<rparr>)
                       else (procs s ! idx)\<lparr>rem_bt := rem_bt (procs s ! idx) - 1\<rparr>)]"
    using f by (simp add: srtf_exec_def Let_def wr)
  show "time (srtf_exec idx s) = time s + 1"
    by (simp add: srtf_exec_def Let_def wr)
  show "completedCount (srtf_exec idx s) =
     completedCount s + (if rem_bt (procs s ! idx) - 1 = 0 then 1 else 0)"
    by (simp add: srtf_exec_def Let_def)
qed

lemma srtf_step_exec:
  assumes inv: "srtf_inv B ps s" and bnd: "bounded B ps" and idx: "idx < length ps"
    and rdy: "srtf_ready (procs s) (time s) idx"
  shows "srtf_inv B ps (srtf_exec idx s)"
    and "sum_list (map rem_bt (procs (srtf_exec idx s))) = sum_list (map rem_bt (procs s)) - 1"
proof -
  have rows: "rows_inv ps (time s) (procs s)" and w: "within B ps (time s) (procs s)"
    and cc: "completedCount s = int (length (filter (\<lambda>p. rem_bt p = 0) (procs s)))"
    and c: "srtf_chart s"
    using inv by (simp_all add: srtf_inv_def)
  have len: "length (procs s) = length ps" using rows by (simp add: rows_inv_def)
  have rd: "at (procs s ! idx) \<le> time s" "0 < rem_bt (procs s ! idx)"
    using rdy by (simp_all add: srtf_ready_def)
  note ex = srtf_exec_exact [OF rows w bnd idx rdy]
  have r': "rows_inv ps (time (srtf_exec idx s)) (procs (srtf_exec idx s))"
    unfolding ex by (rule rows_inv_run [OF rows idx rd]) (use rd in simp_all)
  have w': "within B ps (time (srtf_exec idx s)) (procs (srtf_exec idx s))"
    unfolding ex by (rule within_run [OF rows w idx rd(2)]) (use rd in simp_all)
  have cc': "completedCount (srtf_exec idx s) =
      int (length (filter (\<lambda>p. rem_bt p = 0) (procs (srtf_exec idx s))))"
    unfolding ex
    using rows_run_count [of idx "procs s" _ 1 "time s", OF _ rd(2) refl] cc idx len by simp
  have c': "srtf_chart (srtf_exec idx s)"
  proof -
    let ?s1 = "open_block (P (pid (procs s ! idx))) s"
    have c1: "length (blocks ?s1) \<le> length (timeline ?s1)"
      using c by (cases "last_block_id s") (auto simp: srtf_chart_def open_block_def Let_def)
    show ?thesis
    proof (cases "rem_bt (procs s ! idx) - 1 = 0")
      case True
      then show ?thesis using c1 by (simp add: srtf_exec_def Let_def srtf_chart_def)
    next
      case False
      have bt: "rem_bt (procs s ! idx) \<le> bt (procs s ! idx)"
        using rows_inv_nth(3,5) [OF rows idx] rd(2) by simp
      have "srtf_ready (procs (srtf_exec idx s)) (time (srtf_exec idx s)) idx"
        "rem_bt (procs (srtf_exec idx s) ! idx) < bt (procs (srtf_exec idx s) ! idx)"
        using False rd idx len bt by (simp_all add: ex srtf_ready_def)
      moreover have "length (procs (srtf_exec idx s)) = length (procs s)"
        by (simp add: ex)
      moreover have "last_block_id (srtf_exec idx s) = P (pid (procs s ! idx))"
        "blocks (srtf_exec idx s) = blocks ?s1" "timeline (srtf_exec idx s) = timeline ?s1"
        using False by (simp_all add: srtf_exec_def Let_def open_block_def)
      ultimately show ?thesis using c1 idx len unfolding srtf_chart_def by auto
    qed
  qed
  show "srtf_inv B ps (srtf_exec idx s)"
    unfolding srtf_inv_def using r' w' cc' c' by simp
  show "sum_list (map rem_bt (procs (srtf_exec idx s))) = sum_list (map rem_bt (procs s)) - 1"
    unfolding ex using rows_run_sum [of idx "procs s" _ 1 "time s", OF _ refl] idx len by simp
qed

text \<open>The idle branch: the selection loop found no process, the next-arrival loop found one.\<close>

lemma srtf_step_idle:
  assumes inv: "srtf_inv B ps s" and bnd: "bounded B ps"
    and none: "select_min rem_bt (srtf_ready (procs s) (time s)) (procs s) = None"
    and na: "srtf_next_arrival (procs s) = (m, True)"
  shows "srtf_inv B ps (srtf_idle m s)"
    and "\<exists>j < length ps. 0 < rem_bt (procs s ! j) \<and> at (procs s ! j) = m"
proof -
  have rows: "rows_inv ps (time s) (procs s)" and w: "within B ps (time s) (procs s)"
    and cc: "completedCount s = int (length (filter (\<lambda>p. rem_bt p = 0) (procs s)))"
    and c: "srtf_chart s"
    using inv by (simp_all add: srtf_inv_def)
  have len: "length (procs s) = length ps" using rows by (simp add: rows_inv_def)
  have fresh: "\<not> rem_bt (procs s ! i) < bt (ps ! i)"
    if i: "i < length ps" and r: "srtf_ready (procs s) (time s) i" for i
  proof -
    have "INT_MAX \<le> rem_bt (procs s ! i)" using select_min_None [OF none _ r] i len by simp
    then show ?thesis using bounded_nth(5) [OF bnd i] by simp
  qed
  have ats: "\<forall>p \<in> set (procs s). at p < INT_MAX"
    using rows_inv_nth(2) [OF rows] bounded_nth(4) [OF bnd] len by (auto simp: in_set_conv_nth)
  obtain p where p: "p \<in> set (procs s)" "0 < rem_bt p" "at p = m"
    using srtf_next_arrival_spec [OF ats] na by auto
  then obtain j where j: "j < length ps" "procs s ! j = p"
    using len by (auto simp: in_set_conv_nth)
  show "\<exists>j < length ps. 0 < rem_bt (procs s ! j) \<and> at (procs s ! j) = m"
    using j p by auto
  have mj: "at (ps ! j) = m" using rows_inv_nth(2) [OF rows j(1)] j(2) p(3) by simp
  have r': "rows_inv ps m (procs s)"
    using rows_inv_idle [OF rows, of m] fresh by (simp add: srtf_ready_def)
  have "\<forall>q \<in> set (procs s). 0 \<le> rem_bt q \<and> (0 < rem_bt q \<longrightarrow> at (ps ! j) \<le> at q)"
    using rows_inv_rem_nonneg [OF rows] srtf_next_arrival_le [of _ "procs s"] na mj by auto
  then have w': "within B ps m (procs s)"
    using within_idle [OF w j(1) bounded_nth(1) [OF bnd j(1)]] mj by simp
  have "length (blocks s) < length (timeline s)"
  proof (cases "last_block_id s")
    case (P x)
    then obtain i where "i < length (procs s)" "srtf_ready (procs s) (time s) i"
      "rem_bt (procs s ! i) < bt (procs s ! i)"
      using c by (auto simp: srtf_chart_def)
    then show ?thesis using fresh [of i] rows_inv_nth(3) [OF rows, of i] len by simp
  qed (use c in \<open>simp_all add: srtf_chart_def\<close>)
  then have c': "srtf_chart (srtf_idle m s)" by (simp add: srtf_chart_def srtf_idle_def Let_def)
  show "srtf_inv B ps (srtf_idle m s)"
    unfolding srtf_inv_def using r' w' cc c' by simp
qed

text \<open>Whenever the loop returns, every process is completed.\<close>

lemma SRTF_loop_partial:
  assumes ret: "SRTF_loop s = Some t" and inv: "srtf_inv B ps s" and bnd: "bounded B ps"
  shows "srtf_inv B ps t" "completedCount t = int (length ps)"
proof -
  have r: "srtf_inv B ps t \<and> (completedCount t < int (length (procs t)) \<longrightarrow>
           \<not> snd (srtf_next_arrival (procs t)))"
  proof (rule SRTF_loop_rule [OF ret, where I = "srtf_inv B ps"])
    show "srtf_inv B ps s" by (rule inv)
  next
    fix s idx
    assume I: "srtf_inv B ps s"
      and sel: "select_min rem_bt (srtf_ready (procs s) (time s)) (procs s) = Some idx"
    note sl = select_min_Some [OF sel]
    have "idx < length ps" using sl(1) I by (simp add: srtf_inv_def rows_inv_def)
    then show "srtf_inv B ps (srtf_exec idx s)" using srtf_step_exec(1) [OF I bnd _ sl(2)] by simp
  next
    fix s m
    assume "srtf_inv B ps s"
      and "select_min rem_bt (srtf_ready (procs s) (time s)) (procs s) = None"
      and "srtf_next_arrival (procs s) = (m, True)"
    then show "srtf_inv B ps (srtf_idle m s)" using srtf_step_idle(1) [OF _ bnd] by simp
  qed
  show it: "srtf_inv B ps t" using r by simp
  have rows: "rows_inv ps (time t) (procs t)"
    and cc: "completedCount t = int (length (filter (\<lambda>p. rem_bt p = 0) (procs t)))"
    using it by (simp_all add: srtf_inv_def)
  have len: "length (procs t) = length ps" using rows by (simp add: rows_inv_def)
  have "\<not> completedCount t < int (length (procs t))"
  proof
    assume l: "completedCount t < int (length (procs t))"
    then have nf: "\<not> snd (srtf_next_arrival (procs t))" using r by simp
    have ats: "\<forall>p \<in> set (procs t). at p < INT_MAX"
      using rows_inv_nth(2) [OF rows] bounded_nth(4) [OF bnd] len by (auto simp: in_set_conv_nth)
    have "\<forall>p \<in> set (procs t). \<not> rem_bt p > 0"
      using srtf_next_arrival_spec [OF ats] nf by (auto split: prod.splits)
    then have "\<forall>p \<in> set (procs t). rem_bt p = 0"
      using rows_inv_rem_nonneg [OF rows] by fastforce
    then have "filter (\<lambda>p. rem_bt p = 0) (procs t) = procs t" by simp
    then show False using l cc by simp
  qed
  moreover have "length (filter (\<lambda>p. rem_bt p = 0) (procs t)) \<le> length (procs t)" by simp
  ultimately show "completedCount t = int (length ps)" using cc len by simp
qed


lemma srtf_inv_init:
  assumes "bounded B ps"
  shows "srtf_inv B ps (SRTF_init ps)"
proof -
  have pos: "\<forall>p \<in> set ps. 0 < bt p" using assms by (simp add: bounded_def)
  then have "filter (\<lambda>p. rem_bt p = 0) (map (\<lambda>p. p\<lparr>rem_bt := bt p\<rparr>) ps) = []"
    by (auto simp: filter_empty_conv)
  then show ?thesis
    using rows_inv_init [OF pos] within_init [OF assms]
    by (simp add: srtf_inv_def SRTF_init_def srtf_chart_def)
qed

text \<open>The merging pass reads the timeline below the number of blocks: inside the vector.\<close>

lemma SRTF_merge_in_range:
  assumes "SRTF_loop (SRTF_init ps) = Some t" "bounded B ps"
  shows "length (blocks t) \<le> length (timeline t)"
  using SRTF_loop_partial(1) [OF assms(1) srtf_inv_init [OF assms(2)] assms(2)]
  by (simp add: srtf_inv_def srtf_chart_def)


section \<open>The admission loop of Round Robin\<close>


section \<open>The loop of Round Robin\<close>

lemma RR_loop_rule:
  fixes quantum :: int
  assumes ret: "RR_loop quantum s = Some t" and init: "I s"
    and exec: "\<And>s. I s \<Longrightarrow> completedCount s < int (length (procs s)) \<Longrightarrow>
        readyQueue (admit s (next_proc_to_arrive s)) \<noteq> [] \<Longrightarrow>
        I (rr_exec quantum (admit s (next_proc_to_arrive s)))"
    and idle: "\<And>s p. I s \<Longrightarrow> completedCount s < int (length (procs s)) \<Longrightarrow>
        readyQueue (admit s (next_proc_to_arrive s)) = [] \<Longrightarrow>
        find (\<lambda>p. rem_bt p > 0)
          (drop (next_proc_to_arrive (admit s (next_proc_to_arrive s)))
                (procs (admit s (next_proc_to_arrive s)))) = Some p \<Longrightarrow>
        I (srtf_idle (at p) (admit s (next_proc_to_arrive s)))"
    and stop: "\<And>s. I s \<Longrightarrow> completedCount s < int (length (procs s)) \<Longrightarrow>
        readyQueue (admit s (next_proc_to_arrive s)) = [] \<Longrightarrow>
        I (admit s (next_proc_to_arrive s))"
  shows "I t \<and> (completedCount t < int (length (procs t)) \<longrightarrow>
           readyQueue t = [] \<and>
           find (\<lambda>p. rem_bt p > 0) (drop (next_proc_to_arrive t) (procs t)) = None)"
proof -
  let ?E = "\<lambda>t. I t \<and> (completedCount t < int (length (procs t)) \<longrightarrow>
           readyQueue t = [] \<and>
           find (\<lambda>p. rem_bt p > 0) (drop (next_proc_to_arrive t) (procs t)) = None)"
  have "quantum = quantum \<longrightarrow> I s \<longrightarrow> ?E t"
  proof (rule RR_loop.raw_induct [where P = "\<lambda>q s t. q = quantum \<longrightarrow> I s \<longrightarrow> ?E t", OF _ ret])
    fix f :: "int \<Rightarrow> rr_state \<Rightarrow> rr_state option" and q s t
    assume IH: "\<And>q s t. f q s = Some t \<Longrightarrow> q = quantum \<longrightarrow> I s \<longrightarrow> ?E t"
      and body0: "(if completedCount s < int (length (procs s)) then
        (let s1 = admit s (next_proc_to_arrive s) in
         if readyQueue s1 = [] then
           (case find (\<lambda>p. rem_bt p > 0) (drop (next_proc_to_arrive s1) (procs s1)) of
              None \<Rightarrow> Some s1
            | Some p \<Rightarrow> f q (srtf_idle (at p) s1))
         else f q (rr_exec q s1))
      else Some s) = Some t"
    note body = body0 [unfolded Let_def]
    show "q = quantum \<longrightarrow> I s \<longrightarrow> ?E t"
    proof (intro impI)
      assume q: "q = quantum" and I: "I s"
      show "?E t"
      proof (cases "completedCount s < int (length (procs s))")
        case False
        then show ?thesis using body I by auto
      next
        case True
        show ?thesis
        proof (cases "readyQueue (admit s (next_proc_to_arrive s)) = []")
          case False
          then have "f quantum (rr_exec quantum (admit s (next_proc_to_arrive s))) = Some t"
            using body True q by simp
          then show ?thesis using IH exec [OF I True False] by blast
        next
          case empty: True
          show ?thesis
          proof (cases "find (\<lambda>p. rem_bt p > 0)
                      (drop (next_proc_to_arrive (admit s (next_proc_to_arrive s)))
                            (procs (admit s (next_proc_to_arrive s))))")
            case None
            then show ?thesis using body True empty stop [OF I True empty] by auto
          next
            case (Some p)
            then have "f quantum (srtf_idle (at p) (admit s (next_proc_to_arrive s))) = Some t"
              using body True empty q by simp
            then show ?thesis using IH idle [OF I True empty Some] by blast
          qed
        qed
      qed
    qed
  qed
  then show ?thesis using init by simp
qed



lemma open_block_frame_rr [simp]:
  "readyQueue (open_block l s) = readyQueue s" "inQueue (open_block l s) = inQueue s"
  "next_proc_to_arrive (open_block l s) = next_proc_to_arrive s"
  by (simp_all add: open_block_def Let_def)

lemma srtf_idle_frame_rr [simp]:
  "readyQueue (srtf_idle m s) = readyQueue s" "inQueue (srtf_idle m s) = inQueue s"
  "next_proc_to_arrive (srtf_idle m s) = next_proc_to_arrive s"
  by (simp_all add: srtf_idle_def Let_def)









section \<open>The chart of Round Robin\<close>

lemma admit_chart:
  "blocks (admit s i) = blocks s \<and> timeline (admit s i) = timeline s \<and>
   last_block_id (admit s i) = last_block_id s"
proof (induction s i rule: admit.induct)
  case (1 s i)
  show ?case
  proof (cases "i < length (procs s)")
    case False
    then show ?thesis by (subst (1 2 3) admit.simps) simp
  next
    case True
    show ?thesis
    proof (cases "at (procs s ! i) \<le> time s \<and> \<not> inQueue s ! i")
      case a: True
      then show ?thesis using True "1.IH"(1) by (subst (1 2 3) admit.simps) simp
    next
      case b: False
      show ?thesis
      proof (cases "at (procs s ! i) > time s")
        case True
        then show ?thesis using \<open>i < length (procs s)\<close> b by (subst (1 2 3) admit.simps) simp
      next
        case False
        then show ?thesis using \<open>i < length (procs s)\<close> b "1.IH"(2)
          by (subst (1 2 3) admit.simps) simp
      qed
    qed
  qed
qed

lemma rr_chart_idle: "rr_chart s \<Longrightarrow> rr_chart (srtf_idle m s)"
  by (auto simp: rr_chart_def srtf_idle_def Let_def)

lemma rr_chart_exec:
  assumes "rr_chart s"
  shows "rr_chart (rr_exec quantum s)"
proof -
  define idx where "idx = hd (readyQueue s)"
  define s3 where "s3 = (open_block (P (pid (procs s ! idx)))
       (s\<lparr>readyQueue := tl (readyQueue s), inQueue := (inQueue s)[idx := False]\<rparr>))
       \<lparr>procs := (procs s)[idx := (procs s ! idx)\<lparr>rem_bt := wrap (rem_bt (procs s ! idx) -
            min quantum (rem_bt (procs s ! idx)))\<rparr>],
        time := wrap (time s + min quantum (rem_bt (procs s ! idx)))\<rparr>"
  define s4 where "s4 = admit s3 (next_proc_to_arrive s3)"
  have "length (blocks s3) \<le> length (timeline s3)"
    using assms by (auto simp: s3_def rr_chart_def open_block_def Let_def)
  then have c4: "length (blocks s4) \<le> length (timeline s4)"
    using admit_chart [of s3 "next_proc_to_arrive s3"] by (simp add: s4_def)
  have ex: "rr_exec quantum s = (if rem_bt (procs s4 ! idx) = 0
         then s4\<lparr>completedCount := completedCount s4 + 1,
                 procs := (procs s4)[idx := finish (time s4) (procs s4 ! idx)],
                 timeline := timeline s4 @ [time s4],
                 last_block_id := NoBlock\<rparr>
         else s4\<lparr>readyQueue := readyQueue s4 @ [idx],
                 inQueue := (inQueue s4)[idx := True],
                 timeline := timeline s4 @ [time s4],
                 last_block_id := NoBlock\<rparr>)"
    unfolding rr_exec_def Let_def s4_def s3_def idx_def by simp
  show ?thesis unfolding ex using c4 by (simp add: rr_chart_def)
qed

lemma RR_loop_chart:
  fixes quantum :: int
  assumes "RR_loop quantum s = Some t" "rr_chart s"
  shows "rr_chart t"
proof -
  have "rr_chart t \<and> (completedCount t < int (length (procs t)) \<longrightarrow>
           readyQueue t = [] \<and>
           find (\<lambda>p. rem_bt p > 0) (drop (next_proc_to_arrive t) (procs t)) = None)"
  proof (rule RR_loop_rule [OF assms(1), where I = rr_chart])
    show "rr_chart s" by (rule assms(2))
  next
    fix s
    assume "rr_chart s"
    then have a: "rr_chart (admit s (next_proc_to_arrive s))"
      using admit_chart [of s "next_proc_to_arrive s"] by (simp add: rr_chart_def)
    then show "rr_chart (rr_exec quantum (admit s (next_proc_to_arrive s)))"
      by (rule rr_chart_exec)
    show "rr_chart (admit s (next_proc_to_arrive s))" by (rule a)
    show "rr_chart (srtf_idle (at p) (admit s (next_proc_to_arrive s)))" for p :: process
      using a by (rule rr_chart_idle)
  qed
  then show ?thesis by simp
qed

lemma rr_chart_init: "rr_chart (RR_init qs)"
  by (simp add: rr_chart_def RR_init_def)


text \<open>The merging pass reads the timeline below the number of blocks: inside the vector.\<close>

lemma RoundRobin_merge_in_range:
  fixes quantum :: int
  assumes "RR_loop quantum (RR_init qs) = Some t"
  shows "length (blocks t) < length (timeline t)"
  using RR_loop_chart [OF assms rr_chart_init] by (simp add: rr_chart_def)




section \<open>The table of every scheduler\<close>


























end
